theory Spec2Isabelle
  imports Main "HOL-Library.AList"
begin

section \<open>Values\<close>

text \<open>
  The values the transcoder and the differencer see. Numbers are the integer-valued JavaScript
  numbers (NaN, the infinities and the signed zero are outside the model); a function and a
  symbol carry an identity tag; an ObjectId is its hex string, a Date its time value, a RegExp
  its source, a Uint8Array or Buffer its bytes. An array, a Set (in insertion order), a Map
  (its entries in insertion order) and a plain object (its own enumerable string-keyed
  properties in \<open>Object.entries\<close> order) are containers. Values are trees: no object
  is reachable twice, so two occurrences of an object are two references.
\<close>

datatype val =
    VUndefined
  | VNull
  | VBool bool
  | VNum int
  | VBigInt int
  | VStr string
  | VSymbol nat
  | VFunction nat
  | VObjectId string
  | VDate int
  | VRegExp string
  | VBin "nat list"
  | VArr "val list"
  | VSet "val list"
  | VMap "(val \<times> val) list"
  | VObj "(string \<times> val) list"

text \<open>
  What the source throws. \<open>MalformedTag\<close> is the failure of \<open>assert(Array.isArray(value))\<close>
  under a tag key in \<open>decode\<close>; \<open>NotAnObject\<close> the failure of the assertion
  \<open>typeof item === "object" && item !== null\<close> of \<open>encode\<close> and \<open>decode\<close>;
  \<open>EmptyPrefix\<close> the failure of \<open>assert.notStrictEqual(prefix, "")\<close> and
  \<open>NotRecordLike\<close> that of \<open>assert(RecordLike(a))\<close> in \<open>changes\<close>;
  \<open>NotAnEntry\<close> the TypeError of \<open>new Map(iterable)\<close> on an entry that is not an object.
\<close>

datatype error = MalformedTag | NotAnObject | EmptyPrefix | NotRecordLike | NotAnEntry

text \<open>\<open>typeof\<close>, as far as the source inspects it.\<close>

datatype jstype = TUndefined | TObject | TBoolean | TNumber | TBigInt | TString | TSymbol | TFunction

fun typeof :: "val \<Rightarrow> jstype" where
  "typeof VUndefined = TUndefined"
| "typeof (VBool _) = TBoolean"
| "typeof (VNum _) = TNumber"
| "typeof (VBigInt _) = TBigInt"
| "typeof (VStr _) = TString"
| "typeof (VSymbol _) = TSymbol"
| "typeof (VFunction _) = TFunction"
| "typeof _ = TObject"

fun isArray :: "val \<Rightarrow> bool" where
  "isArray (VArr _) = True"
| "isArray _ = False"

fun isSet :: "val \<Rightarrow> bool" where
  "isSet (VSet _) = True"
| "isSet _ = False"

fun isMap :: "val \<Rightarrow> bool" where
  "isMap (VMap _) = True"
| "isMap _ = False"

text \<open>
  \<open>EJSONCompatible\<close> (utils): false on a function, undefined and a symbol; true on
  every other non-object and on null; among objects true exactly on an ObjectId, a Date,
  a RegExp and a Uint8Array or Buffer.
\<close>

definition EJSONCompatible :: "val \<Rightarrow> bool" where
  "EJSONCompatible item =
     (if typeof item \<in> {TFunction, TUndefined, TSymbol} then False
      else if typeof item \<noteq> TObject \<or> item = VNull then True
      else (case item of
              VObjectId _ \<Rightarrow> True
            | VDate _ \<Rightarrow> True
            | VRegExp _ \<Rightarrow> True
            | VBin _ \<Rightarrow> True
            | _ \<Rightarrow> False))"

lemma EJSONCompatible_simps [simp]:
  "EJSONCompatible VUndefined = False"
  "EJSONCompatible VNull = True"
  "EJSONCompatible (VBool b) = True"
  "EJSONCompatible (VNum n) = True"
  "EJSONCompatible (VBigInt n) = True"
  "EJSONCompatible (VStr s) = True"
  "EJSONCompatible (VSymbol i) = False"
  "EJSONCompatible (VFunction i) = False"
  "EJSONCompatible (VObjectId h) = True"
  "EJSONCompatible (VDate t) = True"
  "EJSONCompatible (VRegExp r) = True"
  "EJSONCompatible (VBin bs) = True"
  "EJSONCompatible (VArr xs) = False"
  "EJSONCompatible (VSet xs) = False"
  "EJSONCompatible (VMap ps) = False"
  "EJSONCompatible (VObj es) = False"
  by (simp_all add: EJSONCompatible_def)

text \<open>\<open>RecordLike\<close>: an object that is neither null nor an array.\<close>

definition RecordLike :: "val \<Rightarrow> bool" where
  "RecordLike item = (typeof item = TObject \<and> item \<noteq> VNull \<and> \<not> isArray item)"

subsection \<open>Arrays, objects, Sets and Maps of the language\<close>

text \<open>\<open>xs.map(f)\<close> with an \<open>f\<close> that may throw: the first failure is the result.\<close>

fun mapM :: "('a \<Rightarrow> error + 'b) \<Rightarrow> 'a list \<Rightarrow> error + 'b list" where
  "mapM f [] = Inr []"
| "mapM f (x # xs) =
     (case f x of
        Inl e \<Rightarrow> Inl e
      | Inr y \<Rightarrow> (case mapM f xs of Inl e \<Rightarrow> Inl e | Inr ys \<Rightarrow> Inr (y # ys)))"

lemma mapM_cong [fundef_cong]:
  "xs = ys \<Longrightarrow> (\<And>x. x \<in> set ys \<Longrightarrow> f x = g x) \<Longrightarrow> mapM f xs = mapM g ys"
  by (induction ys arbitrary: xs) (auto split: sum.splits)

text \<open>\<open>xs.at(i)\<close> for \<open>i \<ge> 0\<close>: undefined past the end.\<close>

definition at :: "val list \<Rightarrow> nat \<Rightarrow> val" where
  "at xs i = (if i < length xs then xs ! i else VUndefined)"

text \<open>
  \<open>Object.fromEntries(entries)\<close>: the properties are assigned in order; assigning an
  existing key keeps its place and replaces its value.
\<close>

definition fromEntries :: "(string \<times> val) list \<Rightarrow> val" where
  "fromEntries entries = VObj (fold (\<lambda>(k, v) obj. AList.update k v obj) entries [])"

text \<open>
  \<open>Object.entries(item)\<close> and \<open>Object.keys(item)\<close> of an object: the own enumerable
  string-keyed properties: the indexed bytes of a Uint8Array, none for a Set, a Map, a
  Date, an ObjectId or a RegExp.
\<close>

function decimal :: "nat \<Rightarrow> string" where
  "decimal n = (if n < 10 then [char_of (48 + n)] else decimal (n div 10) @ [char_of (48 + n mod 10)])"
  by pat_completeness auto
termination
  by (relation "measure id") auto

declare decimal.simps [simp del]

fun Object_entries :: "val \<Rightarrow> (string \<times> val) list" where
  "Object_entries (VObj es) = es"
| "Object_entries (VBin bs) = map (\<lambda>i. (decimal i, VNum (int (bs ! i)))) [0..<length bs]"
| "Object_entries _ = []"

definition Object_keys :: "val \<Rightarrow> string list" where
  "Object_keys item = map fst (Object_entries item)"

text \<open>\<open>a[k]\<close> on an object, own properties only: undefined when the key is absent.\<close>

definition getprop :: "val \<Rightarrow> string \<Rightarrow> val" where
  "getprop a k = (case map_of (Object_entries a) k of None \<Rightarrow> VUndefined | Some v \<Rightarrow> v)"

text \<open>
  SameValueZero, the key equality of Set and Map: primitives are compared by value,
  objects (and functions) by reference, and two occurrences of an object in a tree are
  two references.
\<close>

fun primitive :: "val \<Rightarrow> bool" where
  "primitive VUndefined = True"
| "primitive VNull = True"
| "primitive (VBool _) = True"
| "primitive (VNum _) = True"
| "primitive (VBigInt _) = True"
| "primitive (VStr _) = True"
| "primitive (VSymbol _) = True"
| "primitive _ = False"

definition sameValueZero :: "val \<Rightarrow> val \<Rightarrow> bool" where
  "sameValueZero x y = (primitive x \<and> x = y)"

text \<open>\<open>set.add(x)\<close> and \<open>new Set(xs)\<close>: a value already present is not added again.\<close>

definition set_add :: "val list \<Rightarrow> val \<Rightarrow> val list" where
  "set_add s x = (if list_ex (\<lambda>y. sameValueZero y x) s then s else s @ [x])"

definition newSet :: "val list \<Rightarrow> val" where
  "newSet xs = VSet (fold (\<lambda>x s. set_add s x) xs [])"

text \<open>
  \<open>map.set(k, v)\<close> and \<open>new Map(entries)\<close>. Every entry must be an object, else a
  TypeError; its key and value are its properties \<open>0\<close> and \<open>1\<close>.
\<close>

fun map_set :: "(val \<times> val) list \<Rightarrow> val \<Rightarrow> val \<Rightarrow> (val \<times> val) list" where
  "map_set [] k v = [(k, v)]"
| "map_set ((k', v') # m) k v =
     (if sameValueZero k' k then (k', v) # m else (k', v') # map_set m k v)"

fun entry_of :: "val \<Rightarrow> error + (val \<times> val)" where
  "entry_of (VArr xs) = Inr (at xs 0, at xs 1)"
| "entry_of (VObj es) = Inr (getprop (VObj es) ''0'', getprop (VObj es) ''1'')"
| "entry_of (VBin bs) = Inr (getprop (VBin bs) ''0'', getprop (VBin bs) ''1'')"
| "entry_of (VSet _) = Inr (VUndefined, VUndefined)"
| "entry_of (VMap _) = Inr (VUndefined, VUndefined)"
| "entry_of (VObjectId _) = Inr (VUndefined, VUndefined)"
| "entry_of (VDate _) = Inr (VUndefined, VUndefined)"
| "entry_of (VRegExp _) = Inr (VUndefined, VUndefined)"
| "entry_of (VFunction _) = Inr (VUndefined, VUndefined)"
| "entry_of _ = Inl NotAnEntry"

definition map_of_pairs :: "(val \<times> val) list \<Rightarrow> val" where
  "map_of_pairs ps = VMap (fold (\<lambda>(k, v) m. map_set m k v) ps [])"

definition newMap :: "val list \<Rightarrow> error + val" where
  "newMap entries =
     (case mapM entry_of entries of
        Inl e \<Rightarrow> Inl e
      | Inr ps \<Rightarrow> Inr (map_of_pairs ps))"

text \<open>\<open>Array.from(map)\<close>: the entries as two-element arrays.\<close>

definition map_entries :: "(val \<times> val) list \<Rightarrow> val list" where
  "map_entries ps = map (\<lambda>(k, v). VArr [k, v]) ps"

text \<open>
  \<open>mongo.BSON.EJSON.parse(mongo.BSON.EJSON.stringify(item))\<close>, the driver's
  serialisation round trip that \<open>encode\<close> applies to an EJSON-compatible item. The driver
  is not part of the repository. Its relaxed Extended JSON gives back a string, a number,
  a boolean, null, an ObjectId and a Date as they are. A Uint8Array or Buffer is
  serialised as the document of its indexed bytes and comes back as that plain object; a
  bigint is written as a 64-bit integer and comes back as a number; a RegExp comes back
  as a BSONRegExp, an object with the properties \<open>pattern\<close> and \<open>options\<close> (its flags,
  which the model does not keep).
\<close>

fun EJSON_roundtrip :: "val \<Rightarrow> val" where
  "EJSON_roundtrip (VBin bs) = VObj (Object_entries (VBin bs))"
| "EJSON_roundtrip (VBigInt n) = VNum n"
| "EJSON_roundtrip (VRegExp r) = VObj [(''pattern'', VStr r), (''options'', VStr [])]"
| "EJSON_roundtrip item = item"

section \<open>The transcoder\<close>

text \<open>
  \<open>encode\<close> (utils). An EJSON-compatible item goes through the driver's round trip; an
  array is encoded element by element; a Set becomes \<open>{ _JSSet: [...] }\<close> and a Map
  \<open>{ _JSMap: [[k, v], ...] }\<close>, each entry encoded as the two-element array it is;
  undefined, a function and a symbol fail the assertion; any other object is encoded
  entry by entry.
\<close>

function encode :: "val \<Rightarrow> error + val" where
  "encode item =
     (if EJSONCompatible item then Inr (EJSON_roundtrip item)
      else (case item of
              VArr xs \<Rightarrow>
                (case mapM encode xs of Inl e \<Rightarrow> Inl e | Inr encoded \<Rightarrow> Inr (VArr encoded))
            | VSet xs \<Rightarrow>
                (case mapM encode xs of
                   Inl e \<Rightarrow> Inl e
                 | Inr encoded \<Rightarrow> Inr (VObj [(''_JSSet'', VArr encoded)]))
            | VMap ps \<Rightarrow>
                (case mapM (\<lambda>(k, v).
                        case encode k of
                          Inl e \<Rightarrow> Inl e
                        | Inr ek \<Rightarrow> (case encode v of Inl e \<Rightarrow> Inl e | Inr ev \<Rightarrow> Inr (VArr [ek, ev]))) ps of
                   Inl e \<Rightarrow> Inl e
                 | Inr encoded \<Rightarrow> Inr (VObj [(''_JSMap'', VArr encoded)]))
            | VObj es \<Rightarrow>
                (case mapM (\<lambda>(key, v). case encode v of Inl e \<Rightarrow> Inl e | Inr w \<Rightarrow> Inr (key, w)) es of
                   Inl e \<Rightarrow> Inl e
                 | Inr entries \<Rightarrow> Inr (fromEntries entries))
            | _ \<Rightarrow> Inl NotAnObject))"
  by pat_completeness auto
termination
  by (relation "measure size") (auto simp: less_Suc_eq_le size_list_estimation')


lemma size_entries_le:
  "\<not> EJSONCompatible item \<Longrightarrow> size_list (size_prod (\<lambda>_. 0) size) (Object_entries item) \<le> size item"
  by (cases item) auto

lemma size_mem_list: "x \<in> set xs \<Longrightarrow> size x < Suc (size_list size xs)"
  by (induction xs) auto

text \<open>
  \<open>decode\<close> (utils). An EJSON-compatible item is returned as it is and an array is
  decoded element by element. Otherwise the entries of the object are visited in order:
  at the key \<open>_JSSet\<close> or \<open>_JSMap\<close> the value must be an array, and the Set or Map built
  from its decoded elements is returned at once; any other entry is collected, its
  value decoded unless EJSON-compatible.
\<close>

function decode :: "val \<Rightarrow> error + val"
  and decode_entries :: "(string \<times> val) list \<Rightarrow> (string \<times> val) list \<Rightarrow> error + val" where
  "decode item =
     (if EJSONCompatible item then Inr item
      else (case item of
              VArr xs \<Rightarrow>
                (case mapM decode xs of Inl e \<Rightarrow> Inl e | Inr decoded \<Rightarrow> Inr (VArr decoded))
            | VUndefined \<Rightarrow> Inl NotAnObject
            | VFunction _ \<Rightarrow> Inl NotAnObject
            | VSymbol _ \<Rightarrow> Inl NotAnObject
            | _ \<Rightarrow> decode_entries (Object_entries item) []))"
| "decode_entries [] entries = Inr (fromEntries entries)"
| "decode_entries ((key, v) # rest) entries =
     (if key = ''_JSSet'' then
        (case v of
           VArr xs \<Rightarrow> (case mapM decode xs of Inl e \<Rightarrow> Inl e | Inr decoded \<Rightarrow> Inr (newSet decoded))
         | _ \<Rightarrow> Inl MalformedTag)
      else if key = ''_JSMap'' then
        (case v of
           VArr xs \<Rightarrow> (case mapM decode xs of Inl e \<Rightarrow> Inl e | Inr decoded \<Rightarrow> newMap decoded)
         | _ \<Rightarrow> Inl MalformedTag)
      else if EJSONCompatible v then decode_entries rest (entries @ [(key, v)])
      else (case decode v of
              Inl e \<Rightarrow> Inl e
            | Inr d \<Rightarrow> decode_entries rest (entries @ [(key, d)])))"
  by pat_completeness auto
termination
proof (relation "measure (\<lambda>x. case x of
          Inl item \<Rightarrow> 2 * size item + 2
        | Inr (es, acc) \<Rightarrow> 2 * size_list (size_prod (\<lambda>_. 0) size) es + 1)")
qed (use size_entries_le in \<open>auto simp: less_Suc_eq_le le_imp_less_Suc dest!: size_mem_list\<close>)


declare encode.simps [simp del]
declare decode.simps(1) [simp del]

subsection \<open>The earlier revision of the transcoder\<close>

text \<open>
  \<open>decode\<close> as src/utils.ts keeps it, an earlier revision of the same function: a value
  that is not an object is returned as it is; the entry \<open>_id\<close> is collected untouched;
  besides \<open>_JSSet\<close> and \<open>_JSMap\<close> the tag \<open>_JSDate\<close> must hold a string, from which
  \<open>new Date(value)\<close> is returned (the language's date parser is the parameter \<open>D\<close>);
  a value that is a non-array object is decoded and pushed, and then every value is
  decoded and pushed (again).
\<close>

fun weight :: "val \<Rightarrow> nat" where
  "weight (VBin bs) = Suc (length bs)"
| "weight (VArr xs) = Suc (sum_list (map weight xs))"
| "weight (VSet xs) = Suc (sum_list (map weight xs))"
| "weight (VMap ps) = Suc (sum_list (map (\<lambda>(k, v). Suc (weight k + weight v)) ps))"
| "weight (VObj es) = Suc (sum_list (map (\<lambda>(k, v). Suc (weight v)) es))"
| "weight _ = 0"

lemma weight_bin_entries:
  "sum_list (map (\<lambda>(k, v). Suc (weight v)) (Object_entries (VBin bs))) = length bs"
proof -
  have "sum_list (map (\<lambda>i. Suc 0) [0..<length bs]) = length bs"
    by (simp add: sum_list_triv)
  then show ?thesis by (simp add: comp_def)
qed

lemma weight_mem_list: "x \<in> set xs \<Longrightarrow> weight x \<le> sum_list (map weight xs)"
  by (induction xs) auto

function decode_v1 :: "(string \<Rightarrow> int) \<Rightarrow> val \<Rightarrow> error + val"
  and decode_v1_entries ::
    "(string \<Rightarrow> int) \<Rightarrow> (string \<times> val) list \<Rightarrow> (string \<times> val) list \<Rightarrow> error + val" where
  "decode_v1 D item =
     (if typeof item \<noteq> TObject \<or> item = VNull then Inr item
      else (case item of
              VArr xs \<Rightarrow>
                (case mapM (decode_v1 D) xs of Inl e \<Rightarrow> Inl e | Inr decoded \<Rightarrow> Inr (VArr decoded))
            | _ \<Rightarrow> decode_v1_entries D (Object_entries item) []))"
| "decode_v1_entries D [] entries = Inr (fromEntries entries)"
| "decode_v1_entries D ((key, v) # rest) entries =
     (if key = ''_id'' then decode_v1_entries D rest (entries @ [(key, v)])
      else if key = ''_JSSet'' then
        (case v of
           VArr xs \<Rightarrow>
             (case mapM (decode_v1 D) xs of Inl e \<Rightarrow> Inl e | Inr decoded \<Rightarrow> Inr (newSet decoded))
         | _ \<Rightarrow> Inl MalformedTag)
      else if key = ''_JSMap'' then
        (case v of
           VArr xs \<Rightarrow>
             (case mapM (decode_v1 D) xs of Inl e \<Rightarrow> Inl e | Inr decoded \<Rightarrow> newMap decoded)
         | _ \<Rightarrow> Inl MalformedTag)
      else if key = ''_JSDate'' then
        (case v of VStr s \<Rightarrow> Inr (VDate (D s)) | _ \<Rightarrow> Inl MalformedTag)
      else
        (case (if typeof v = TObject \<and> v \<noteq> VNull \<and> \<not> isArray v
               then (case decode_v1 D v of Inl e \<Rightarrow> Inl e | Inr d \<Rightarrow> Inr (entries @ [(key, d)]))
               else Inr entries) of
           Inl e \<Rightarrow> Inl e
         | Inr entries' \<Rightarrow>
             (case decode_v1 D v of
                Inl e \<Rightarrow> Inl e
              | Inr d \<Rightarrow> decode_v1_entries D rest (entries' @ [(key, d)]))))"
  by pat_completeness auto
termination
proof (relation "measure (\<lambda>x. case x of
          Inl (D, item) \<Rightarrow> 2 * weight item + 2
        | Inr (D, es, acc) \<Rightarrow> 2 * sum_list (map (\<lambda>(k, v). Suc (weight v)) es) + 1)")
qed (auto simp: less_Suc_eq_le le_imp_less_Suc weight_bin_entries
       simp del: Object_entries.simps(2) dest!: weight_mem_list)

declare decode_v1.simps(1) [simp del]

text \<open>
  \<open>encode\<close> as src/utils.ts keeps it: a value that is not an object, null and an ObjectId
  are returned as they are; an array, a Set and a Map are encoded as in the current
  revision; a Date becomes \<open>{ _JSDate: item.toLocaleString() }\<close> (the language's formatting
  of a date in the locale of the host is the parameter \<open>L\<close>); any other object is encoded
  entry by entry. Nothing throws.
\<close>

lemma weight_entries: "(k, v) \<in> set (Object_entries item) \<Longrightarrow> weight v < weight item"
proof (cases item)
  case (VObj es)
  assume "(k, v) \<in> set (Object_entries item)"
  then have "(k, v) \<in> set es" using VObj by simp
  then have "Suc (weight v) \<le> sum_list (map (\<lambda>(k, v). Suc (weight v)) es)"
    by (induction es) auto
  then show ?thesis using VObj by simp
qed auto

lemma weight_mem_entries:
  "(k, v) \<in> set es \<Longrightarrow> weight v \<le> sum_list (map (\<lambda>(k, v). Suc (weight v)) es)"
  by (induction es) auto

lemma weight_pairs:
  "(k, v) \<in> set ps \<Longrightarrow> weight k + weight v < sum_list (map (\<lambda>(k, v). Suc (weight k + weight v)) ps)"
  by (induction ps) auto

function encode_v1 :: "(int \<Rightarrow> string) \<Rightarrow> val \<Rightarrow> val" where
  "encode_v1 L item =
     (if typeof item \<noteq> TObject \<or> item = VNull then item
      else (case item of
              VObjectId h \<Rightarrow> item
            | VArr xs \<Rightarrow> VArr (map (encode_v1 L) xs)
            | VSet xs \<Rightarrow> VObj [(''_JSSet'', VArr (map (encode_v1 L) xs))]
            | VMap ps \<Rightarrow>
                VObj [(''_JSMap'', VArr (map (\<lambda>(k, v). VArr [encode_v1 L k, encode_v1 L v]) ps))]
            | VDate t \<Rightarrow> VObj [(''_JSDate'', VStr (L t))]
            | _ \<Rightarrow> fromEntries (map (\<lambda>(key, v). (key, encode_v1 L v)) (Object_entries item))))"
  by pat_completeness auto
termination
proof (relation "measure (\<lambda>(L, item). weight item)")
qed (auto simp: less_Suc_eq_le simp del: Object_entries.simps(2)
       dest: weight_mem_list weight_mem_entries weight_entries weight_pairs)

declare encode_v1.simps [simp del]

subsection \<open>Reserved keys\<close>

text \<open>
  An entry list without a reserved tag key (of the current revision, and of the earlier
  one), and one whose values all decode (the earlier revision does not decode the value
  of \<open>_id\<close>).
\<close>

definition no_tag_key :: "(string \<times> val) list \<Rightarrow> bool" where
  "no_tag_key es = list_all (\<lambda>(k, v). k \<noteq> ''_JSSet'' \<and> k \<noteq> ''_JSMap'') es"

definition no_tag_key_v1 :: "(string \<times> val) list \<Rightarrow> bool" where
  "no_tag_key_v1 es = list_all (\<lambda>(k, v). k \<noteq> ''_JSSet'' \<and> k \<noteq> ''_JSMap'' \<and> k \<noteq> ''_JSDate'') es"

definition siblings_decode :: "(string \<times> val) list \<Rightarrow> bool" where
  "siblings_decode es = list_all (\<lambda>(k, v). \<not> isl (decode v)) es"

definition siblings_decode_v1 :: "(string \<Rightarrow> int) \<Rightarrow> (string \<times> val) list \<Rightarrow> bool" where
  "siblings_decode_v1 D es = list_all (\<lambda>(k, v). k = ''_id'' \<or> \<not> isl (decode_v1 D v)) es"

section \<open>Deep equality\<close>

text \<open>
  Modelled from the spec: deep equality, which the source's \<open>equal\<close> takes from
  \<open>assert.deepStrictEqual\<close> of the runtime's library (not part of the repository): true
  when the assertion does not throw. Arrays are compared element by element in order;
  Sets and Maps without regard to order, each member of the first matched with a member
  of the second not matched before; plain objects key by key without regard to
  order; every other value by its kind and content.
\<close>

fun remove_first :: "('a \<Rightarrow> bool) \<Rightarrow> 'a list \<Rightarrow> 'a list option" where
  "remove_first p [] = None"
| "remove_first p (y # ys) =
     (if p y then Some ys else (case remove_first p ys of None \<Rightarrow> None | Some ys' \<Rightarrow> Some (y # ys')))"

fun match_all :: "('a \<Rightarrow> 'a \<Rightarrow> bool) \<Rightarrow> 'a list \<Rightarrow> 'a list \<Rightarrow> bool" where
  "match_all eq [] ys = (ys = [])"
| "match_all eq (x # xs) ys =
     (case remove_first (eq x) ys of None \<Rightarrow> False | Some ys' \<Rightarrow> match_all eq xs ys')"

lemma match_all_cong [fundef_cong]:
  "xs = xs' \<Longrightarrow> ys = ys' \<Longrightarrow> (\<And>x y. x \<in> set xs' \<Longrightarrow> eq x y = eq' x y)
   \<Longrightarrow> match_all eq xs ys = match_all eq' xs' ys'"
proof (induction xs' arbitrary: xs ys ys')
  case Nil
  then show ?case by simp
next
  case (Cons x xs')
  have "eq x = eq' x" using Cons.prems(3) by auto
  then show ?case using Cons by (auto split: option.splits)
qed

lemma list_all2_cong' [fundef_cong]:
  "xs = xs' \<Longrightarrow> ys = ys' \<Longrightarrow> (\<And>x y. x \<in> set xs' \<Longrightarrow> P x y = Q x y)
   \<Longrightarrow> list_all2 P xs ys = list_all2 Q xs' ys'"
proof (induction xs' arbitrary: xs ys ys')
  case Nil
  then show ?case by simp
next
  case (Cons x xs')
  then show ?case by (cases ys') auto
qed

lemma size_mem_pairs:
  "(k, v) \<in> set ps \<Longrightarrow> size k < Suc (size_list (size_prod size size) ps)"
  "(k, v) \<in> set ps \<Longrightarrow> size v < Suc (size_list (size_prod size size) ps)"
  by (induction ps) auto

lemma size_mem_entries:
  "(k, v) \<in> set es \<Longrightarrow> size v < Suc (size_list (size_prod (\<lambda>_. 0) size) es)"
  by (induction es) auto

function equal_deep :: "val \<Rightarrow> val \<Rightarrow> bool" where
  "equal_deep a b =
     (case a of
        VArr xs \<Rightarrow> (case b of VArr ys \<Rightarrow> list_all2 equal_deep xs ys | _ \<Rightarrow> False)
      | VSet xs \<Rightarrow> (case b of VSet ys \<Rightarrow> match_all equal_deep xs ys | _ \<Rightarrow> False)
      | VMap ps \<Rightarrow>
          (case b of
             VMap qs \<Rightarrow> match_all (\<lambda>(k, v) (k', v'). equal_deep k k' \<and> equal_deep v v') ps qs
           | _ \<Rightarrow> False)
      | VObj es \<Rightarrow>
          (case b of
             VObj fs \<Rightarrow>
               length es = length fs \<and>
               list_all (\<lambda>(k, v). case map_of fs k of None \<Rightarrow> False | Some v' \<Rightarrow> equal_deep v v') es
           | _ \<Rightarrow> False)
      | _ \<Rightarrow> a = b)"
  by pat_completeness auto
termination
  by (relation "measure (\<lambda>(a, b). size a)")
     (auto dest: size_mem_list size_mem_pairs size_mem_entries)

declare equal_deep.simps [simp del]

subsection \<open>The values the transcoder supports\<close>

text \<open>
  The invariants every value of the language has: the keys of an object are distinct,
  a Set holds no primitive twice and a Map no primitive key twice.
\<close>

fun wellformed :: "val \<Rightarrow> bool" where
  "wellformed (VArr xs) = list_all wellformed xs"
| "wellformed (VSet xs) = (distinct (filter primitive xs) \<and> list_all wellformed xs)"
| "wellformed (VMap ps) =
     (distinct (filter primitive (map fst ps)) \<and> list_all (\<lambda>(k, v). wellformed k \<and> wellformed v) ps)"
| "wellformed (VObj es) = (distinct (map fst es) \<and> list_all (\<lambda>(k, v). wellformed v) es)"
| "wellformed _ = True"

text \<open>
  The values that survive the wire format: a string, a number, a boolean, null, an
  ObjectId, a Date, and arrays, Sets, Maps and plain objects of such values. A binary
  blob, which the spec counts among the primitives, is not one of them.
\<close>

fun supported :: "val \<Rightarrow> bool" where
  "supported VNull = True"
| "supported (VBool _) = True"
| "supported (VNum _) = True"
| "supported (VStr _) = True"
| "supported (VObjectId _) = True"
| "supported (VDate _) = True"
| "supported (VArr xs) = list_all supported xs"
| "supported (VSet xs) = list_all supported xs"
| "supported (VMap ps) = list_all (\<lambda>(k, v). supported k \<and> supported v) ps"
| "supported (VObj es) = list_all (\<lambda>(k, v). supported v) es"
| "supported _ = False"

text \<open>No plain object of the value has a reserved tag key among its keys.\<close>

fun tag_free :: "val \<Rightarrow> bool" where
  "tag_free (VArr xs) = list_all tag_free xs"
| "tag_free (VSet xs) = list_all tag_free xs"
| "tag_free (VMap ps) = list_all (\<lambda>(k, v). tag_free k \<and> tag_free v) ps"
| "tag_free (VObj es) = (no_tag_key es \<and> list_all (\<lambda>(k, v). tag_free v) es)"
| "tag_free _ = True"

text \<open>
  The values that survive the earlier revision. An ObjectId does so only as the value of
  the field \<open>_id\<close>, which \<open>decode\<close> collects untouched and which must therefore hold a
  value that \<open>encode\<close> leaves as it is, an ObjectId or a primitive; a Date only if parsing
  its formatted string gives it back; and \<open>_JSDate\<close> is a third reserved key.
\<close>

fun id_leaf :: "val \<Rightarrow> bool" where
  "id_leaf VNull = True"
| "id_leaf (VBool _) = True"
| "id_leaf (VNum _) = True"
| "id_leaf (VStr _) = True"
| "id_leaf (VObjectId _) = True"
| "id_leaf _ = False"

fun supported_v1 :: "(int \<Rightarrow> string) \<Rightarrow> (string \<Rightarrow> int) \<Rightarrow> val \<Rightarrow> bool" where
  "supported_v1 L D VNull = True"
| "supported_v1 L D (VBool _) = True"
| "supported_v1 L D (VNum _) = True"
| "supported_v1 L D (VStr _) = True"
| "supported_v1 L D (VDate t) = (D (L t) = t)"
| "supported_v1 L D (VArr xs) = list_all (supported_v1 L D) xs"
| "supported_v1 L D (VSet xs) = list_all (supported_v1 L D) xs"
| "supported_v1 L D (VMap ps) = list_all (\<lambda>(k, v). supported_v1 L D k \<and> supported_v1 L D v) ps"
| "supported_v1 L D (VObj es) =
     list_all (\<lambda>(k, v). if k = ''_id'' then id_leaf v else supported_v1 L D v) es"
| "supported_v1 L D _ = False"

fun tag_free_v1 :: "val \<Rightarrow> bool" where
  "tag_free_v1 (VArr xs) = list_all tag_free_v1 xs"
| "tag_free_v1 (VSet xs) = list_all tag_free_v1 xs"
| "tag_free_v1 (VMap ps) = list_all (\<lambda>(k, v). tag_free_v1 k \<and> tag_free_v1 v) ps"
| "tag_free_v1 (VObj es) = (no_tag_key_v1 es \<and> list_all (\<lambda>(k, v). tag_free_v1 v) es)"
| "tag_free_v1 _ = True"

text \<open>Encoding succeeds and decoding the result gives the value back.\<close>

definition roundtrips :: "val \<Rightarrow> bool" where
  "roundtrips v = (\<exists>w. encode v = Inr w \<and> decode w = Inr v)"


section \<open>The differencer\<close>

text \<open>
  \<open>UpdateFilter\<close> (utils): one map from field path to payload per update operator. The
  class declares fifteen operators, each initially empty; \<open>changes\<close> assigns to
  \<open>$push\<close>, \<open>$set\<close> and \<open>$unset\<close> only (the fields \<open>d_push\<close>, \<open>d_set\<close>, \<open>d_unset\<close>), so the
  other twelve stay empty and \<open>parse\<close> always leaves them out. A payload is a value: the
  encoded value of a \<open>$set\<close>, the empty string of an \<open>$unset\<close>, the object
  \<open>{ $each, $position, $slice }\<close> of a \<open>$push\<close>.
\<close>

record UpdateFilter =
  d_push :: "(string \<times> val) list"
  d_set :: "(string \<times> val) list"
  d_unset :: "(string \<times> val) list"

definition new_UpdateFilter :: UpdateFilter where
  "new_UpdateFilter = \<lparr>d_push = [], d_set = [], d_unset = []\<rparr>"

text \<open>
  The getter \<open>parse\<close>: the operators whose map is not empty, in the order of their
  declaration, each with the key \<open>_id\<close> deleted from its map.
\<close>

definition parse :: "UpdateFilter \<Rightarrow> (string \<times> (string \<times> val) list) list" where
  "parse d =
     map (\<lambda>(oper, m). (oper, AList.delete ''_id'' m))
       (filter (\<lambda>(oper, m). length m > 0)
          [(''$push'', d_push d), (''$set'', d_set d), (''$unset'', d_unset d)])"

text \<open>\<open>Object.assign(target, values)\<close>, and \<open>Object.assign(diff[oper], values)\<close>.\<close>

definition Object_assign :: "(string \<times> val) list \<Rightarrow> (string \<times> val) list \<Rightarrow> (string \<times> val) list" where
  "Object_assign target vs = fold (\<lambda>(k, v) obj. AList.update k v obj) vs target"

definition assign_oper :: "UpdateFilter \<Rightarrow> string \<times> (string \<times> val) list \<Rightarrow> UpdateFilter" where
  "assign_oper diff ov =
     (case ov of (oper, vs) \<Rightarrow>
        if oper = ''$push'' then diff\<lparr>d_push := Object_assign (d_push diff) vs\<rparr>
        else if oper = ''$set'' then diff\<lparr>d_set := Object_assign (d_set diff) vs\<rparr>
        else if oper = ''$unset'' then diff\<lparr>d_unset := Object_assign (d_unset diff) vs\<rparr>
        else diff)"

text \<open>\<open>path(k)\<close>: the key under the prefix, or the key itself under the empty prefix.\<close>

definition path :: "string \<Rightarrow> string \<Rightarrow> string" where
  "path prefix k = (if prefix \<noteq> [] then prefix @ ''.'' @ k else k)"

text \<open>
  The loop \<open>for (let i = 0; i < Math.max(a.length, b.length); i++)\<close> of the three
  container branches: the first index at which the two sides are not deep-equal.
\<close>

function first_diff :: "val list \<Rightarrow> val list \<Rightarrow> nat \<Rightarrow> nat option" where
  "first_diff aEntries bEntries i =
     (if i < max (length aEntries) (length bEntries) then
        (if \<not> equal_deep (at aEntries i) (at bEntries i) then Some i
         else first_diff aEntries bEntries (Suc i))
      else None)"
  by pat_completeness auto
termination
  by (relation "measure (\<lambda>(aEntries, bEntries, i). max (length aEntries) (length bEntries) - i)") auto

declare first_diff.simps [simp del]

text \<open>\<open>diff.$set[prefix] = encode(b)\<close> on a new filter.\<close>

definition set_encoded :: "string \<Rightarrow> val \<Rightarrow> error + UpdateFilter" where
  "set_encoded prefix b =
     (case encode b of
        Inl e \<Rightarrow> Inl e
      | Inr w \<Rightarrow> Inr (new_UpdateFilter\<lparr>d_set := [(prefix, w)]\<rparr>))"

text \<open>
  \<open>diff.$push[key] = { $each: bEntries.slice(i).map(encode), $position: i, $slice: n }\<close>
  on a new filter.
\<close>

definition push_tail :: "string \<Rightarrow> val list \<Rightarrow> nat \<Rightarrow> nat \<Rightarrow> error + UpdateFilter" where
  "push_tail key bEntries i n =
     (case mapM encode (drop i bEntries) of
        Inl e \<Rightarrow> Inl e
      | Inr each \<Rightarrow>
          Inr (new_UpdateFilter\<lparr>d_push :=
            [(key, VObj [(''$each'', VArr each), (''$position'', VNum (int i)), (''$slice'', VNum (int n))])]\<rparr>))"

text \<open>
  The branch of \<open>changes\<close> for a side that is EJSON-compatible or a \<open>b\<close> that is an array,
  a Set or a Map, once the two sides are known not to be deep-equal and the prefix not to
  be empty.
\<close>

definition changes_container :: "string \<Rightarrow> val \<Rightarrow> val \<Rightarrow> error + UpdateFilter" where
  "changes_container prefix a b =
     (case b of
        VSet bs \<Rightarrow>
          (case a of
             VSet as \<Rightarrow>
               (case first_diff as bs 0 of
                  Some i \<Rightarrow> push_tail (prefix @ ''._JSSet'') bs i (length bs)
                | None \<Rightarrow> set_encoded prefix b)
           | _ \<Rightarrow> set_encoded prefix b)
      | VMap bps \<Rightarrow>
          (case a of
             VMap aps \<Rightarrow>
               (case first_diff (map_entries aps) (map_entries bps) 0 of
                  Some i \<Rightarrow> push_tail (prefix @ ''._JSMap'') (map_entries bps) i (length bps)
                | None \<Rightarrow> set_encoded prefix b)
           | _ \<Rightarrow> set_encoded prefix b)
      | VArr bs \<Rightarrow>
          (case a of
             VArr as \<Rightarrow>
               (case first_diff as bs 0 of
                  Some i \<Rightarrow> push_tail prefix bs i (length bs)
                | None \<Rightarrow> set_encoded prefix b)
           | _ \<Rightarrow>
               (case mapM encode bs of
                  Inl e \<Rightarrow> Inl e
                | Inr w \<Rightarrow> Inr (new_UpdateFilter\<lparr>d_set := [(prefix, VArr w)]\<rparr>)))
      | _ \<Rightarrow> set_encoded prefix b)"

text \<open>
  The first loop of the record branch: \<open>$unset\<close> of every key of \<open>a\<close> that is not a key
  of \<open>b\<close>.
\<close>

definition unset_removed :: "string \<Rightarrow> string list \<Rightarrow> string list \<Rightarrow> UpdateFilter" where
  "unset_removed prefix aKeys bKeys =
     fold (\<lambda>k diff. if k \<in> set bKeys then diff
                     else diff\<lparr>d_unset := AList.update (path prefix k) (VStr []) (d_unset diff)\<rparr>)
       aKeys new_UpdateFilter"

text \<open>
  \<open>changes\<close> (utils), and the second loop of its record branch, which merges the
  rendered changes of every entry of \<open>b\<close> into the filter.
\<close>

function changes :: "string \<Rightarrow> val \<Rightarrow> val \<Rightarrow> error + UpdateFilter"
  and changes_loop ::
    "string \<Rightarrow> val \<Rightarrow> (string \<times> val) list \<Rightarrow> UpdateFilter \<Rightarrow> error + UpdateFilter" where
  "changes prefix a b =
     (if b = VUndefined then
        (if prefix = [] then Inl EmptyPrefix
         else Inr (new_UpdateFilter\<lparr>d_unset := [(prefix, VStr [])]\<rparr>))
      else if EJSONCompatible a \<or> EJSONCompatible b \<or> isArray b \<or> isSet b \<or> isMap b
              \<or> typeof b = TBigInt then
        (if equal_deep a b then Inr new_UpdateFilter
         else if prefix = [] then Inl EmptyPrefix
         else changes_container prefix a b)
      else if typeof b \<in> {TFunction, TSymbol} then Inr new_UpdateFilter
      else if typeof a \<noteq> typeof b then
        (if prefix = [] then Inl EmptyPrefix else set_encoded prefix b)
      else if \<not> RecordLike a then Inl NotRecordLike
      else if \<not> RecordLike b then Inl NotRecordLike
      else changes_loop prefix a (Object_entries b)
             (unset_removed prefix (Object_keys a) (Object_keys b)))"
| "changes_loop prefix a [] diff = Inr diff"
| "changes_loop prefix a ((k, v) # rest) diff =
     (case changes (path prefix k) (getprop a k) v of
        Inl e \<Rightarrow> Inl e
      | Inr vChanges \<Rightarrow>
          changes_loop prefix a rest (fold (\<lambda>ov d. assign_oper d ov) (parse vChanges) diff))"
  by pat_completeness auto
termination
proof (relation "measure (\<lambda>x. case x of
          Inl (prefix, a, b) \<Rightarrow> 2 * size b + 2
        | Inr (prefix, a, es, diff) \<Rightarrow> 2 * size_list (size_prod (\<lambda>_. 0) size) es + 1)")
qed (auto simp: less_Suc_eq_le dest!: size_entries_le)

declare changes.simps(1) [simp del]

text \<open>
  A value that is not undefined and none of whose fields, through nested plain objects,
  is undefined.
\<close>

fun defined_fields :: "val \<Rightarrow> bool" where
  "defined_fields VUndefined = False"
| "defined_fields (VObj es) = list_all (\<lambda>(k, v). defined_fields v) es"
| "defined_fields _ = True"

subsection \<open>Field names and paths\<close>

text \<open>
  A field name that a dotted path can address: not empty and without a dot. A value
  all of whose fields, through nested plain objects, have such names.
\<close>

definition good_key :: "string \<Rightarrow> bool" where
  "good_key k = (k \<noteq> [] \<and> CHR ''.'' \<notin> set k)"

fun field_names_ok :: "val \<Rightarrow> bool" where
  "field_names_ok (VObj es) = list_all (\<lambda>(k, v). good_key k \<and> field_names_ok v) es"
| "field_names_ok _ = True"

text \<open>The paths of a filter, and a filter no path of which stands under two operators.\<close>

definition all_paths :: "UpdateFilter \<Rightarrow> string set" where
  "all_paths d = set (map fst (d_push d)) \<union> set (map fst (d_set d)) \<union> set (map fst (d_unset d))"

definition disjoint_opers :: "UpdateFilter \<Rightarrow> bool" where
  "disjoint_opers d =
     (set (map fst (d_push d)) \<inter> set (map fst (d_set d)) = {} \<and>
      set (map fst (d_push d)) \<inter> set (map fst (d_unset d)) = {} \<and>
      set (map fst (d_set d)) \<inter> set (map fst (d_unset d)) = {})"

text \<open>A path that is \<open>q\<close> or continues \<open>q\<close> after a dot.\<close>

definition path_under :: "string \<Rightarrow> string \<Rightarrow> bool" where
  "path_under q p = (p = q \<or> take (Suc (length q)) p = q @ ''.'')"

section \<open>The cursor\<close>

text \<open>
  The driver's cursor (\<open>mongo.FindCursor\<close>), as the spec's external interface describes
  it: a stream of wire documents with \<open>next\<close> and \<open>close\<close>. The driver's cursors live in
  the world, a list indexed by handle; every \<open>collection.find\<close> opens a new one.
\<close>

record driver_cursor =
  remaining :: "val list"
  closed :: bool

type_synonym world = "driver_cursor list"

text \<open>\<open>FindOptions\<close>: the fields the cursor reads, each absent or present.\<close>

record find_options =
  o_limit :: "int option"
  o_skip :: "int option"
  o_populate :: "string list option"
  o_sort :: "val option"
  o_hint :: "val option"

definition no_options :: find_options where
  "no_options = \<lparr>o_limit = None, o_skip = None, o_populate = None, o_sort = None, o_hint = None\<rparr>"

text \<open>\<open>{ ...options }\<close>: the spread of an options object that may be undefined.\<close>

definition spread :: "find_options option \<Rightarrow> find_options" where
  "spread opts = (case opts of None \<Rightarrow> no_options | Some o1 \<Rightarrow> o1)"

text \<open>
  \<open>MongoCollection\<close>, as far as the cursor uses it: the driver's query (the documents
  that \<open>collection.find(query, options)\<close> streams, a function of the store the
  collection stands for), the model's constructor and the model's \<open>populate\<close>.
\<close>

record mongo_collection =
  driver_find :: "val \<Rightarrow> find_options option \<Rightarrow> val list"
  model :: "val \<Rightarrow> val"
  populate :: "string \<Rightarrow> val \<Rightarrow> val"

text \<open>The search of a cursor: an exact-match filter or a predicate.\<close>

datatype search = Filter val | Predicate "val \<Rightarrow> bool"

record FindCursor =
  collection :: mongo_collection
  cursor :: nat
  query :: val
  search :: "search option"
  c_limit :: "int option"
  c_skip :: int
  skipped :: int
  yielded :: int
  options :: "find_options option"
  transform :: "(val \<Rightarrow> val) option"
  c_populate :: "string list"

text \<open>
  The constructor. The query is the encoded filter, or \<open>{}\<close> for a predicate or no
  search; \<open>_limit\<close> is \<open>options?.limit ?? Infinity\<close> (\<open>None\<close> is Infinity) and \<open>_skip\<close> is
  \<open>options?.skip ?? 0\<close>. The constructor stores the options object in \<open>this.options\<close>
  and then deletes \<open>limit\<close>, \<open>skip\<close> and \<open>populate\<close> from that same object, so the stored
  options are the stripped ones, which also go to the driver's \<open>find\<close>.
\<close>

definition strip_options :: "find_options option \<Rightarrow> find_options option" where
  "strip_options opts =
     (case opts of
        None \<Rightarrow> None
      | Some o1 \<Rightarrow> Some (o1\<lparr>o_limit := None, o_skip := None, o_populate := None\<rparr>))"

definition new_FindCursor ::
  "mongo_collection \<Rightarrow> search option \<Rightarrow> find_options option \<Rightarrow> (val \<Rightarrow> val) option \<Rightarrow> world
   \<Rightarrow> error + (FindCursor \<times> world)" where
  "new_FindCursor coll srch opts tf w =
     (case (case srch of Some (Filter f) \<Rightarrow> encode f | _ \<Rightarrow> Inr (VObj [])) of
        Inl e \<Rightarrow> Inl e
      | Inr q \<Rightarrow>
          Inr (\<lparr>collection = coll,
                cursor = length w,
                query = q,
                search = srch,
                c_limit = (case opts of None \<Rightarrow> None | Some o1 \<Rightarrow> o_limit o1),
                c_skip = (case opts of None \<Rightarrow> 0 | Some o1 \<Rightarrow> (case o_skip o1 of None \<Rightarrow> 0 | Some n \<Rightarrow> n)),
                skipped = 0,
                yielded = 0,
                options = strip_options opts,
                transform = tf,
                c_populate = (case opts of None \<Rightarrow> [] | Some o1 \<Rightarrow> (case o_populate o1 of None \<Rightarrow> [] | Some ks \<Rightarrow> ks))\<rparr>,
               w @ [\<lparr>remaining = driver_find coll q (strip_options opts), closed = False\<rparr>]))"

text \<open>\<open>MongoCollection.find\<close>.\<close>

definition find_cursor :: "mongo_collection \<Rightarrow> search option \<Rightarrow> find_options option \<Rightarrow> world
   \<Rightarrow> error + (FindCursor \<times> world)" where
  "find_cursor coll srch opts w = new_FindCursor coll srch opts None w"

text \<open>The modifiers: each builds a new cursor from the stored options and one field.\<close>

definition clone :: "FindCursor \<Rightarrow> world \<Rightarrow> error + (FindCursor \<times> world)" where
  "clone c w = new_FindCursor (collection c) (search c) (options c) (transform c) w"

definition skip :: "int \<Rightarrow> FindCursor \<Rightarrow> world \<Rightarrow> error + (FindCursor \<times> world)" where
  "skip n c w =
     new_FindCursor (collection c) (search c) (Some ((spread (options c))\<lparr>o_skip := Some n\<rparr>)) (transform c) w"

definition limit :: "int \<Rightarrow> FindCursor \<Rightarrow> world \<Rightarrow> error + (FindCursor \<times> world)" where
  "limit n c w =
     new_FindCursor (collection c) (search c) (Some ((spread (options c))\<lparr>o_limit := Some n\<rparr>)) (transform c) w"

definition hint :: "val \<Rightarrow> FindCursor \<Rightarrow> world \<Rightarrow> error + (FindCursor \<times> world)" where
  "hint h c w =
     new_FindCursor (collection c) (search c) (Some ((spread (options c))\<lparr>o_hint := Some h\<rparr>)) (transform c) w"

definition sort_cursor :: "val \<Rightarrow> FindCursor \<Rightarrow> world \<Rightarrow> error + (FindCursor \<times> world)" where
  "sort_cursor s c w =
     new_FindCursor (collection c) (search c) (Some ((spread (options c))\<lparr>o_sort := Some s\<rparr>)) None w"

definition map_cursor :: "(val \<Rightarrow> val) \<Rightarrow> FindCursor \<Rightarrow> world \<Rightarrow> error + (FindCursor \<times> world)" where
  "map_cursor f c w = new_FindCursor (collection c) (search c) (options c) (Some f) w"

text \<open>
  The driver's \<open>cursor.next()\<close> and \<open>cursor.close()\<close>: \<open>next\<close> takes the first remaining
  document, or gives null when none remains or the cursor is closed.
\<close>

definition driver_remaining :: "world \<Rightarrow> nat \<Rightarrow> val list" where
  "driver_remaining w h = (if h < length w \<and> \<not> closed (w ! h) then remaining (w ! h) else [])"

definition driver_next :: "nat \<Rightarrow> world \<Rightarrow> val option \<times> world" where
  "driver_next h w =
     (case driver_remaining w h of
        [] \<Rightarrow> (None, w)
      | d # ds \<Rightarrow> (Some d, w[h := (w ! h)\<lparr>remaining := ds\<rparr>]))"

definition driver_close :: "nat \<Rightarrow> world \<Rightarrow> world" where
  "driver_close h w = (if h < length w then w[h := (w ! h)\<lparr>remaining := [], closed := True\<rparr>] else w)"

text \<open>What an iterator step gives: a value, the end, or an exception.\<close>

datatype iter_result = Done | Value val | Thrown error

text \<open>\<open>this.yielded >= this._limit\<close>, with \<open>None\<close> for Infinity.\<close>

definition limit_reached :: "FindCursor \<Rightarrow> bool" where
  "limit_reached c = (case c_limit c of None \<Rightarrow> False | Some l \<Rightarrow> yielded c \<ge> l)"

text \<open>Populate the configured relationships, then transform.\<close>

definition populated_transformed :: "FindCursor \<Rightarrow> val \<Rightarrow> val" where
  "populated_transformed c v =
     (let p = fold (\<lambda>key x. populate (collection c) key x) (c_populate c) v
      in case transform c of None \<Rightarrow> p | Some f \<Rightarrow> f p)"

text \<open>
  The loop of \<open>FindCursor.next\<close>, entered with the document just fetched. A document that
  passes is counted against the skip counter by \<open>skipped++; continue\<close>, which goes round
  the loop with the same document; a document that fails the predicate is replaced by the
  next one of the driver's cursor.
\<close>

function next_loop :: "FindCursor \<Rightarrow> world \<Rightarrow> val option \<Rightarrow> iter_result \<times> FindCursor \<times> world" where
  "next_loop c w None = (Done, c, driver_close (cursor c) w)"
| "next_loop c w (Some doc) =
     (if limit_reached c then (Done, c, driver_close (cursor c) w)
      else (case decode doc of
              Inl e \<Rightarrow> (Thrown e, c, w)
            | Inr data \<Rightarrow>
                (let v = model (collection c) data in
                 case search c of
                   Some (Predicate p) \<Rightarrow>
                     (if p v then
                        (let v' = populated_transformed c v in
                         if v' = VNull then (Done, c, w)
                         else if c_skip c > skipped c then next_loop (c\<lparr>skipped := skipped c + 1\<rparr>) w (Some doc)
                         else (Value v', c\<lparr>yielded := yielded c + 1\<rparr>, w))
                      else (case driver_next (cursor c) w of (nxt, w') \<Rightarrow> next_loop c w' nxt))
                 | _ \<Rightarrow>
                     (let v' = populated_transformed c v in
                      if v' = VNull then (Done, c, w)
                      else if c_skip c > skipped c then next_loop (c\<lparr>skipped := skipped c + 1\<rparr>) w (Some doc)
                      else (Value v', c\<lparr>yielded := yielded c + 1\<rparr>, w)))))"
  by pat_completeness auto
termination
proof (relation "measures [\<lambda>(c, w, d). case d of None \<Rightarrow> 0 | Some _ \<Rightarrow> Suc (length (driver_remaining w (cursor c))),
                           \<lambda>(c, w, d). nat (c_skip c - skipped c)]")
qed (auto simp: driver_next_def driver_remaining_def split: list.splits if_splits)

declare next_loop.simps(2) [simp del]

text \<open>\<open>FindCursor.next\<close>.\<close>

definition "next" :: "FindCursor \<Rightarrow> world \<Rightarrow> iter_result \<times> FindCursor \<times> world" where
  "next c w = (case driver_next (cursor c) w of (nxt, w') \<Rightarrow> next_loop c w' nxt)"

text \<open>
  \<open>FindCursor.hasNext\<close>: \<open>this.clone().skip(this.yielded)\<close>, and whether \<open>next\<close> of that
  cursor is not done. The cursor itself is not touched; the world gains the driver
  cursors of the two cursors built.
\<close>

definition hasNext :: "FindCursor \<Rightarrow> world \<Rightarrow> (error + bool) \<times> world" where
  "hasNext c w =
     (case clone c w of
        Inl e \<Rightarrow> (Inl e, w)
      | Inr (c1, w1) \<Rightarrow>
          (case skip (yielded c) c1 w1 of
             Inl e \<Rightarrow> (Inl e, w1)
           | Inr (probe, w2) \<Rightarrow>
               (case next probe w2 of
                  (Thrown e, _, w3) \<Rightarrow> (Inl e, w3)
                | (r, _, w3) \<Rightarrow> (Inr (r \<noteq> Done), w3))))"

text \<open>
  The async iterator, and \<open>toArray\<close> over it, with fuel for the iterations of
  \<open>while (true)\<close>: \<open>None\<close> when the fuel runs out. The branch
  \<open>if (this._skip > this.skipped) continue;\<close> goes round with nothing changed.
\<close>

fun iterate :: "nat \<Rightarrow> FindCursor \<Rightarrow> world \<Rightarrow> val list \<Rightarrow> ((error + val list) \<times> FindCursor \<times> world) option" where
  "iterate 0 c w acc = None"
| "iterate (Suc fuel) c w acc =
     (if c_skip c > skipped c then iterate fuel c w acc
      else if limit_reached c then Some (Inr acc, c, w)
      else (case next c w of
              (Done, c', w') \<Rightarrow> Some (Inr acc, c', w')
            | (Thrown e, c', w') \<Rightarrow> Some (Inl e, c', w')
            | (Value v, c', w') \<Rightarrow> iterate fuel c' w' (acc @ [v])))"

definition toArray :: "nat \<Rightarrow> FindCursor \<Rightarrow> world \<Rightarrow> ((error + val option) \<times> FindCursor \<times> world) option" where
  "toArray fuel c w =
     (case iterate fuel c w [] of
        None \<Rightarrow> None
      | Some (Inl e, c', w') \<Rightarrow> Some (Inl e, c', w')
      | Some (Inr results, c', w') \<Rightarrow>
          Some (Inr (if length results > 0 then Some (VArr results) else None), c', w'))"

text \<open>The first \<open>n\<close> results of calling \<open>next\<close> again and again.\<close>

fun nexts :: "nat \<Rightarrow> FindCursor \<Rightarrow> world \<Rightarrow> iter_result list" where
  "nexts 0 c w = []"
| "nexts (Suc n) c w = (case next c w of (r, c', w') \<Rightarrow> r # nexts n c' w')"

text \<open>
  Chaining as the source writes it, \<open>find(...).skip(2).limit(3)\<close>, and the first \<open>n\<close>
  results of the cursor so built.
\<close>

definition and_then ::
  "error + (FindCursor \<times> world) \<Rightarrow> (FindCursor \<Rightarrow> world \<Rightarrow> error + (FindCursor \<times> world))
   \<Rightarrow> error + (FindCursor \<times> world)" where
  "and_then r f = (case r of Inl e \<Rightarrow> Inl e | Inr (c, w) \<Rightarrow> f c w)"

definition drain :: "nat \<Rightarrow> error + (FindCursor \<times> world) \<Rightarrow> iter_result list" where
  "drain n r = (case r of Inl e \<Rightarrow> [Thrown e] | Inr (c, w) \<Rightarrow> nexts n c w)"

definition drain_toArray :: "nat \<Rightarrow> error + (FindCursor \<times> world) \<Rightarrow> (error + val option) option" where
  "drain_toArray fuel r =
     (case r of Inl e \<Rightarrow> Some (Inl e) | Inr (c, w) \<Rightarrow> map_option fst (toArray fuel c w))"

subsection \<open>A store of ten documents\<close>

text \<open>
  Ten documents \<open>{ n: 1 }\<close> to \<open>{ n: 10 }\<close>, streamed in this order whatever the query, and
  a predicate that matches exactly six of them: those with \<open>n\<close> 2, 3, 5, 6, 8 and 9.
\<close>

definition doc :: "int \<Rightarrow> val" where
  "doc n = VObj [(''n'', VNum n)]"

definition coll10 :: mongo_collection where
  "coll10 = \<lparr>driver_find = (\<lambda>q opts. map doc [1, 2, 3, 4, 5, 6, 7, 8, 9, 10]),
             model = (\<lambda>v. v), populate = (\<lambda>k v. v)\<rparr>"

definition pred6 :: "val \<Rightarrow> bool" where
  "pred6 v = (v \<in> set (map doc [2, 3, 5, 6, 8, 9]))"

subsection \<open>Cells of the world\<close>

text \<open>
  Two worlds that hold the same driver cursor under a handle; a cursor whose loop gives
  the same result and the same cursor object in both, leaving them so; and a world that
  differs from another at one handle at most.
\<close>

definition same_cell :: "nat \<Rightarrow> world \<Rightarrow> world \<Rightarrow> bool" where
  "same_cell h w1 w2 = (h < length w1 \<and> h < length w2 \<and> w1 ! h = w2 ! h)"

definition agree :: "FindCursor \<Rightarrow> world \<Rightarrow> world \<Rightarrow> val option \<Rightarrow> bool" where
  "agree c w1 w2 d =
     (\<exists>r c' w1' w2'. next_loop c w1 d = (r, c', w1') \<and> next_loop c w2 d = (r, c', w2') \<and>
        cursor c' = cursor c \<and> same_cell (cursor c) w1' w2')"

definition only_cell :: "nat \<Rightarrow> world \<Rightarrow> world \<Rightarrow> bool" where
  "only_cell h w w' = (length w' = length w \<and> (\<forall>i. i \<noteq> h \<longrightarrow> w' ! i = w ! i))"

text \<open>The cursor of the ten documents after its first \<open>next\<close>, with its world.\<close>

definition cursor10 :: "FindCursor \<times> world" where
  "cursor10 =
     (case find_cursor coll10 (Some (Predicate pred6)) None [] of
        Inr (c, w) \<Rightarrow> snd (next c w))"

text \<open>The cursor and the world after \<open>n\<close> calls of \<open>next\<close>.\<close>

fun after_nexts :: "nat \<Rightarrow> FindCursor \<times> world \<Rightarrow> FindCursor \<times> world" where
  "after_nexts 0 cw = cw"
| "after_nexts (Suc n) cw = after_nexts n (snd (next (fst cw) (snd cw)))"

section \<open>\<open>updateOne\<close>\<close>
















subsection \<open>A collection of users\<close>






section \<open>Applying a filter to a stored document\<close>

text \<open>
  Modelled from the spec: what the store does with a ChangeSet, ``set \<open>\<rightarrow>\<close> overwrite
  path; unset \<open>\<rightarrow>\<close> remove path; append-at-position \<open>\<rightarrow>\<close> splice tail at index, truncate to
  length''. The store is not part of the repository. The operations of a filter are
  applied to a wire document together: the value at a path is removed when the path is
  unset, replaced by the payload when the path is set, spliced when the path is pushed
  to and the value is an array; otherwise an object is updated field by field, each
  field at its own path, and gains the fields that are set directly under its path. A
  field whose name is empty or has a dot is addressed by no path and stays as it is. A
  \<open>$push\<close> where there is no array, and a \<open>$set\<close> under a path where there is no object,
  leave the document as it is. Should a path stand under more than one operator, which
  the differencer excludes for well-named fields, unset comes before set and set before
  push.
\<close>

text \<open>\<open>$push\<close> with \<open>$each\<close>, \<open>$position\<close> and \<open>$slice\<close>: insert at the position, keep the first
  \<open>$slice\<close> elements.\<close>

definition splice_push :: "val \<Rightarrow> val list \<Rightarrow> val list" where
  "splice_push payload xs =
     (case (getprop payload ''$each'', getprop payload ''$position'', getprop payload ''$slice'') of
        (VArr each, VNum i, VNum n) \<Rightarrow> take (nat n) (take (nat i) xs @ each @ drop (nat i) xs)
      | _ \<Rightarrow> xs)"

text \<open>The field name \<open>k\<close> for which the path is \<open>path prefix k\<close>, if there is one.\<close>

definition child_key :: "string \<Rightarrow> string \<Rightarrow> string option" where
  "child_key prefix p =
     (if prefix = [] then (if good_key p then Some p else None)
      else if take (Suc (length prefix)) p = prefix @ ''.'' \<and> good_key (drop (Suc (length prefix)) p)
           then Some (drop (Suc (length prefix)) p)
      else None)"

text \<open>The fields that the filter sets directly under the path and the object does not have.\<close>

definition new_field :: "string \<Rightarrow> (string \<times> val) list \<Rightarrow> string \<times> val \<Rightarrow> (string \<times> val) option" where
  "new_field p es qv =
     (case qv of (q, v) \<Rightarrow>
        (case child_key p q of
           None \<Rightarrow> None
         | Some k \<Rightarrow> if k \<in> set (map fst es) then None else Some (k, v)))"

definition new_fields :: "UpdateFilter \<Rightarrow> string \<Rightarrow> (string \<times> val) list \<Rightarrow> (string \<times> val) list" where
  "new_fields U p es = List.map_filter (new_field p es) (d_set U)"

function apply_val :: "UpdateFilter \<Rightarrow> string \<Rightarrow> val option \<Rightarrow> val option"
  and apply_fields :: "UpdateFilter \<Rightarrow> string \<Rightarrow> (string \<times> val) list \<Rightarrow> (string \<times> val) list" where
  "apply_val U p old =
     (case map_of (d_unset U) p of
        Some u \<Rightarrow> None
      | None \<Rightarrow>
          (case map_of (d_set U) p of
             Some v \<Rightarrow> Some v
           | None \<Rightarrow>
               (case map_of (d_push U) p of
                  Some payload \<Rightarrow>
                    (case old of Some (VArr xs) \<Rightarrow> Some (VArr (splice_push payload xs)) | _ \<Rightarrow> old)
                | None \<Rightarrow>
                    (case old of
                       Some (VObj es) \<Rightarrow> Some (VObj (apply_fields U p es @ new_fields U p es))
                     | _ \<Rightarrow> old))))"
| "apply_fields U p [] = []"
| "apply_fields U p ((k, w) # es) =
     (if good_key k then
        (case apply_val U (path p k) (Some w) of
           None \<Rightarrow> apply_fields U p es
         | Some w' \<Rightarrow> (k, w') # apply_fields U p es)
      else (k, w) # apply_fields U p es)"
  by pat_completeness auto
termination
  by (relation "measure (\<lambda>x. case x of
          Inl (U, p, old) \<Rightarrow> (case old of None \<Rightarrow> 0 | Some w \<Rightarrow> 2 * size w + 2)
        | Inr (U, p, es) \<Rightarrow> 2 * size_list (size_prod (\<lambda>_. 0) size) es + 1)") auto

declare apply_val.simps [simp del]

text \<open>
  The rendered filter as the store receives it, and what its application makes of the
  value stored at a path (of the whole document, at the empty path).
\<close>

definition operator :: "(string \<times> (string \<times> val) list) list \<Rightarrow> string \<Rightarrow> (string \<times> val) list" where
  "operator r name = (case map_of r name of None \<Rightarrow> [] | Some m \<Rightarrow> m)"

definition apply_update ::
  "(string \<times> (string \<times> val) list) list \<Rightarrow> string \<Rightarrow> val option \<Rightarrow> val option" where
  "apply_update r prefix old =
     apply_val \<lparr>d_push = operator r ''$push'', d_set = operator r ''$set'', d_unset = operator r ''$unset''\<rparr>
       prefix old"

subsection \<open>Documents of matching shape\<close>

text \<open>
  A document value: supported by the transcoder, with the invariants of the language,
  without reserved tag keys, and with field names that a path can address.
\<close>

definition document :: "val \<Rightarrow> bool" where
  "document v = (supported v \<and> wellformed v \<and> tag_free v \<and> field_names_ok v)"

text \<open>
  Matching shape: where the second value has a plain object, the first has a plain
  object too, matching field by field on the fields of the second, or has no
  container (a field that is absent, or a primitive, a Date, an ObjectId).
\<close>

fun shape_ok :: "val \<Rightarrow> val \<Rightarrow> bool" where
  "shape_ok a (VObj bs) =
     (\<not> isArray a \<and> \<not> isSet a \<and> \<not> isMap a \<and> list_all (\<lambda>(k, v). shape_ok (getprop a k) v) bs)"
| "shape_ok a b = True"

subsection \<open>What a filter says about a path\<close>

text \<open>
  The payloads a filter has for a path under its three operators; the paths within a
  prefix (all of them within the empty prefix); two filters that say the same about
  every path within a prefix.
\<close>

definition op_at :: "UpdateFilter \<Rightarrow> string \<Rightarrow> val option \<times> val option \<times> val option" where
  "op_at d p = (map_of (d_push d) p, map_of (d_set d) p, map_of (d_unset d) p)"

definition scope :: "string \<Rightarrow> string \<Rightarrow> bool" where
  "scope P p = (P = [] \<or> path_under P p)"

definition agrees :: "string \<Rightarrow> UpdateFilter \<Rightarrow> UpdateFilter \<Rightarrow> bool" where
  "agrees P U d = (\<forall>p. scope P p \<longrightarrow> op_at U p = op_at d p)"

definition distinct_opers :: "UpdateFilter \<Rightarrow> bool" where
  "distinct_opers d =
     (distinct (map fst (d_push d)) \<and> distinct (map fst (d_set d)) \<and> distinct (map fst (d_unset d)))"

text \<open>
  The stored form of a field: nothing for a field that is absent, its encoding
  otherwise. A result of an application that decodes to a value deep-equal to the one
  aimed at.
\<close>

definition stored :: "val \<Rightarrow> val option \<Rightarrow> bool" where
  "stored a old =
     (if a = VUndefined then old = None
      else (case encode a of Inl e \<Rightarrow> False | Inr w \<Rightarrow> old = Some w))"

definition result_ok :: "val option \<Rightarrow> val \<Rightarrow> bool" where
  "result_ok r b =
     (case r of
        None \<Rightarrow> False
      | Some w \<Rightarrow> (case decode w of Inl e \<Rightarrow> False | Inr b' \<Rightarrow> equal_deep b' b))"

subsection \<open>The invariant of the record loop\<close>

text \<open>
  What the loop over the entries of the second record knows and what it establishes.
  The entries are well-named documents that match the fields of the first record in
  shape; the filter says nothing yet within the paths of the entries; at the root, the
  entry \<open>_id\<close> has the value it has in the first record. Afterwards the filter says
  outside the paths of the entries what it said before, and applying any filter that
  agrees with it within the path of an entry gives that entry's value.
\<close>

definition entries_ok :: "val \<Rightarrow> (string \<times> val) list \<Rightarrow> bool" where
  "entries_ok a es = (\<forall>k v. (k, v) \<in> set es \<longrightarrow> good_key k \<and> document v \<and> shape_ok (getprop a k) v)"

definition frame_ok :: "string \<Rightarrow> (string \<times> val) list \<Rightarrow> UpdateFilter \<Rightarrow> bool" where
  "frame_ok prefix es diff =
     (\<forall>k v p. (k, v) \<in> set es \<longrightarrow> path_under (path prefix k) p \<longrightarrow> op_at diff p = (None, None, None))"

definition root_ok :: "string \<Rightarrow> val \<Rightarrow> (string \<times> val) list \<Rightarrow> bool" where
  "root_ok prefix a es = (prefix \<noteq> [] \<or> (\<forall>v. (''_id'', v) \<in> set es \<longrightarrow> getprop a ''_id'' = v))"

definition outside_same :: "string \<Rightarrow> (string \<times> val) list \<Rightarrow> UpdateFilter \<Rightarrow> UpdateFilter \<Rightarrow> bool" where
  "outside_same prefix es d diff =
     (\<forall>p. (\<forall>k v. (k, v) \<in> set es \<longrightarrow> \<not> path_under (path prefix k) p) \<longrightarrow> op_at d p = op_at diff p)"

definition fields_ok :: "string \<Rightarrow> val \<Rightarrow> (string \<times> val) list \<Rightarrow> UpdateFilter \<Rightarrow> bool" where
  "fields_ok prefix a es d =
     (\<forall>k v U old. (k, v) \<in> set es \<longrightarrow> agrees (path prefix k) U d \<longrightarrow> distinct (map fst (d_set U)) \<longrightarrow>
        stored (getprop a k) old \<longrightarrow> result_ok (apply_val U (path prefix k) old) v)"

subsection \<open>Diff, then apply\<close>

text \<open>
  What is read back at a path once the ChangeSet of \<open>changes\<close> for two values is applied
  to the stored form of the first: nothing if \<open>changes\<close> or the transcoder throws, or if
  nothing is left at the path.
\<close>

definition diff_applied :: "string \<Rightarrow> val \<Rightarrow> val \<Rightarrow> val option" where
  "diff_applied prefix before after =
     (case changes prefix before after of
        Inl e \<Rightarrow> None
      | Inr d \<Rightarrow>
          (case encode before of
             Inl e \<Rightarrow> None
           | Inr w \<Rightarrow>
               (case apply_update (parse d) prefix (Some w) of
                  None \<Rightarrow> None
                | Some w' \<Rightarrow> (case decode w' of Inl e \<Rightarrow> None | Inr v \<Rightarrow> Some v))))"

subsection \<open>Two versions of a document\<close>

definition profile_before :: val where
  "profile_before =
     VObj [(''_id'', VObjectId ''65f0''), (''email'', VStr ''a''), (''tags'', VSet [VNum 1, VNum 2]),
           (''old'', VNull),
           (''o'', VObj [(''x'', VNum 1), (''y'', VArr [VNum 1, VNum 2, VNum 3])]),
           (''m'', VMap [(VStr ''k'', VNum 1)])]"

definition profile_after :: val where
  "profile_after =
     VObj [(''_id'', VObjectId ''65f0''), (''email'', VStr ''b''), (''tags'', VSet [VNum 1, VNum 2, VNum 3]),
           (''o'', VObj [(''x'', VNum 1), (''y'', VArr [VNum 1, VNum 5]), (''z'', VObj [(''q'', VDate 5)])]),
           (''m'', VMap [(VStr ''k'', VNum 2), (VStr ''j'', VNum 2)])]"

definition profile_diff :: UpdateFilter where
  "profile_diff =
     \<lparr>d_push =
        [(''tags._JSSet'',
          VObj [(''$each'', VArr [VNum 3]), (''$position'', VNum 2), (''$slice'', VNum 3)]),
         (''o.y'', VObj [(''$each'', VArr [VNum 5]), (''$position'', VNum 1), (''$slice'', VNum 2)]),
         (''m._JSMap'',
          VObj [(''$each'', VArr [VArr [VStr ''k'', VNum 2], VArr [VStr ''j'', VNum 2]]),
                (''$position'', VNum 0), (''$slice'', VNum 2)])],
      d_set = [(''email'', VStr ''b''), (''o.z'', VObj [(''q'', VDate 5)])],
      d_unset = [(''old'', VStr [])]\<rparr>"

section \<open>Properties of the transcoder\<close>

lemma decode_EJSON: "EJSONCompatible item \<Longrightarrow> decode item = Inr item"
  by (simp add: decode.simps(1))

lemma decode_VObj: "decode (VObj es) = decode_entries es []"
  by (simp add: decode.simps(1))

lemma decode_VArr:
  "decode (VArr xs) = (case mapM decode xs of Inl e \<Rightarrow> Inl e | Inr decoded \<Rightarrow> Inr (VArr decoded))"
  by (simp add: decode.simps(1))

lemma decode_v1_VObj: "decode_v1 D (VObj es) = decode_v1_entries D es []"
  by (simp add: decode_v1.simps(1))

lemma decode_v1_VArr:
  "decode_v1 D (VArr xs) =
     (case mapM (decode_v1 D) xs of Inl e \<Rightarrow> Inl e | Inr decoded \<Rightarrow> Inr (VArr decoded))"
  by (simp add: decode_v1.simps(1))

lemma decode_v1_non_object: "typeof item \<noteq> TObject \<Longrightarrow> decode_v1 D item = Inr item"
  by (simp add: decode_v1.simps(1))

lemma decode_entries_skip:
  assumes "no_tag_key pre"
  shows "(\<exists>e. decode_entries (pre @ rest) acc = Inl e) \<or>
         (\<exists>acc'. decode_entries (pre @ rest) acc = decode_entries rest acc')"
  using assms
proof (induction pre arbitrary: acc)
  case Nil
  then show ?case by auto
next
  case (Cons p pre)
  obtain k v where p: "p = (k, v)" by (cases p)
  show ?case
  proof (cases "EJSONCompatible v")
    case True
    then show ?thesis using Cons p by (simp add: no_tag_key_def)
  next
    case False
    then show ?thesis using Cons p by (cases "decode v") (auto simp: no_tag_key_def)
  qed
qed

lemma decode_entries_skip_ok:
  assumes "no_tag_key pre" and "siblings_decode pre"
  shows "\<exists>acc'. decode_entries (pre @ rest) acc = decode_entries rest acc'"
  using assms
proof (induction pre arbitrary: acc)
  case Nil
  then show ?case by auto
next
  case (Cons p pre)
  obtain k v where p: "p = (k, v)" by (cases p)
  show ?case
  proof (cases "EJSONCompatible v")
    case True
    then show ?thesis using Cons p by (simp add: no_tag_key_def siblings_decode_def)
  next
    case False
    then show ?thesis using Cons p
      by (cases "decode v") (auto simp: no_tag_key_def siblings_decode_def)
  qed
qed

lemma decode_v1_entries_skip:
  assumes "no_tag_key_v1 pre"
  shows "(\<exists>e. decode_v1_entries D (pre @ rest) acc = Inl e) \<or>
         (\<exists>acc'. decode_v1_entries D (pre @ rest) acc = decode_v1_entries D rest acc')"
  using assms
proof (induction pre arbitrary: acc)
  case Nil
  then show ?case by auto
next
  case (Cons p pre)
  obtain k v where p: "p = (k, v)" by (cases p)
  show ?case using Cons p by (cases "decode_v1 D v") (auto simp: no_tag_key_v1_def)
qed

lemma decode_v1_entries_skip_ok:
  assumes "no_tag_key_v1 pre" and "siblings_decode_v1 D pre"
  shows "\<exists>acc'. decode_v1_entries D (pre @ rest) acc = decode_v1_entries D rest acc'"
  using assms
proof (induction pre arbitrary: acc)
  case Nil
  then show ?case by auto
next
  case (Cons p pre)
  obtain k v where p: "p = (k, v)" by (cases p)
  show ?case using Cons p
    by (cases "decode_v1 D v") (auto simp: no_tag_key_v1_def siblings_decode_v1_def)
qed

lemma malformed_head:
  assumes "k = ''_JSSet'' \<or> k = ''_JSMap''" and "\<not> isArray v"
  shows "decode_entries ((k, v) # post) acc = Inl MalformedTag"
    and "decode_v1_entries D ((k, v) # post) acc = Inl MalformedTag"
  using assms by (cases v; auto)+

text \<open>
  C6, as stated, fails: the object \<open>{ _JSSet: [1], _JSMap: 5 }\<close> carries the tag key
  \<open>_JSMap\<close> with a value that is not an array, and \<open>decode\<close> (in both revisions) returns
  the Set of the first tag without looking at the second.
\<close>

theorem decode_malformed_tag_counterexample:
  "\<not> isArray (VNum 5) \<and>
   decode (VObj [(''_JSSet'', VArr [VNum 1]), (''_JSMap'', VNum 5)]) = Inr (VSet [VNum 1]) \<and>
   decode_v1 (\<lambda>s. 0) (VObj [(''_JSSet'', VArr [VNum 1]), (''_JSMap'', VNum 5)]) = Inr (VSet [VNum 1])"
  by (simp add: decode_VObj decode_v1_VObj decode_EJSON decode_v1_non_object newSet_def set_add_def)

text \<open>
  C6 (amended): when the first reserved tag key of a wire object, in the order of its
  entries, is \<open>_JSSet\<close> or \<open>_JSMap\<close> with a value that is not an array, \<open>decode\<close> fails,
  whatever entries follow; and when the entries before the tag decode, the failure is
  the tag's assertion (MalformedTag). The same holds of the earlier revision, whose
  reserved keys include \<open>_JSDate\<close>.
\<close>

theorem decode_malformed_first_tag:
  assumes "k = ''_JSSet'' \<or> k = ''_JSMap''" and "\<not> isArray v"
  shows "(no_tag_key pre \<longrightarrow>
            (\<exists>e. decode (VObj (pre @ (k, v) # post)) = Inl e) \<and>
            (siblings_decode pre \<longrightarrow> decode (VObj (pre @ (k, v) # post)) = Inl MalformedTag)) \<and>
         (no_tag_key_v1 pre \<longrightarrow>
            (\<exists>e. decode_v1 D (VObj (pre @ (k, v) # post)) = Inl e) \<and>
            (siblings_decode_v1 D pre \<longrightarrow>
               decode_v1 D (VObj (pre @ (k, v) # post)) = Inl MalformedTag))"
proof (intro conjI impI)
  assume "no_tag_key pre"
  from decode_entries_skip [OF this, of "(k, v) # post" "[]"]
  show "\<exists>e. decode (VObj (pre @ (k, v) # post)) = Inl e"
    using malformed_head(1) [OF assms] by (auto simp: decode_VObj)
next
  assume "no_tag_key pre" and "siblings_decode pre"
  from decode_entries_skip_ok [OF this, of "(k, v) # post" "[]"]
  show "decode (VObj (pre @ (k, v) # post)) = Inl MalformedTag"
    using malformed_head(1) [OF assms] by (auto simp: decode_VObj)
next
  assume "no_tag_key_v1 pre"
  from decode_v1_entries_skip [OF this, of D "(k, v) # post" "[]"]
  show "\<exists>e. decode_v1 D (VObj (pre @ (k, v) # post)) = Inl e"
    using malformed_head(2) [OF assms] by (auto simp: decode_v1_VObj)
next
  assume "no_tag_key_v1 pre" and "siblings_decode_v1 D pre"
  from decode_v1_entries_skip_ok [OF this, of "(k, v) # post" "[]"]
  show "decode_v1 D (VObj (pre @ (k, v) # post)) = Inl MalformedTag"
    using malformed_head(2) [OF assms] by (auto simp: decode_v1_VObj)
qed

theorem decode_malformed_first_tag_witness:
  "no_tag_key [(''a'', VArr [VNum 1])] \<and> siblings_decode [(''a'', VArr [VNum 1])] \<and>
   no_tag_key_v1 [(''a'', VArr [VNum 1])] \<and> siblings_decode_v1 (\<lambda>s. 0) [(''a'', VArr [VNum 1])] \<and>
   \<not> isArray (VStr ''x'') \<and>
   decode (VObj [(''a'', VArr [VNum 1]), (''_JSMap'', VStr ''x''), (''b'', VNull)]) = Inl MalformedTag \<and>
   decode_v1 (\<lambda>s. 0) (VObj [(''a'', VArr [VNum 1]), (''_JSMap'', VStr ''x''), (''b'', VNull)])
     = Inl MalformedTag"
proof -
  have h: "no_tag_key [(''a'', VArr [VNum 1])]" "siblings_decode [(''a'', VArr [VNum 1])]"
    "no_tag_key_v1 [(''a'', VArr [VNum 1])]" "siblings_decode_v1 (\<lambda>s. 0) [(''a'', VArr [VNum 1])]"
    by (simp_all add: no_tag_key_def siblings_decode_def no_tag_key_v1_def siblings_decode_v1_def
        decode_VArr decode_EJSON decode_v1_VArr decode_v1_non_object)
  have k: "''_JSMap'' = ''_JSSet'' \<or> ''_JSMap'' = ''_JSMap''" and v: "\<not> isArray (VStr ''x'')"
    by simp_all
  show ?thesis
    using h decode_malformed_first_tag [OF k v, of "[(''a'', VArr [VNum 1])]" "[(''b'', VNull)]" "\<lambda>s. 0"]
    by simp
qed

lemma tag_head:
  assumes "mapM decode xs = Inr ys"
  shows "decode_entries ((''_JSSet'', VArr xs) # post) acc = Inr (newSet ys)"
    and "decode_entries ((''_JSMap'', VArr xs) # post) acc = newMap ys"
  using assms by simp_all

lemma tag_head_v1:
  assumes "mapM (decode_v1 D) xs = Inr ys"
  shows "decode_v1_entries D ((''_JSSet'', VArr xs) # post) acc = Inr (newSet ys)"
    and "decode_v1_entries D ((''_JSMap'', VArr xs) # post) acc = newMap ys"
  using assms by simp_all

text \<open>
  C10, as stated, fails: \<open>{ _JSMap: [], _JSSet: [] }\<close> contains the key \<open>_JSSet\<close> with an
  array, and \<open>decode\<close> returns the (empty) Map of the tag that comes first, not a Set;
  \<open>{ a: undefined, _JSSet: [] }\<close> fails on the sibling before the tag; and
  \<open>{ _JSMap: [1] }\<close> gives no Map, because \<open>new Map\<close> refuses an entry that is not an
  object.
\<close>

theorem decode_tag_precedence_counterexample:
  "decode (VObj [(''_JSMap'', VArr []), (''_JSSet'', VArr [])]) = Inr (VMap []) \<and>
   decode_v1 (\<lambda>s. 0) (VObj [(''_JSMap'', VArr []), (''_JSSet'', VArr [])]) = Inr (VMap []) \<and>
   decode (VObj [(''a'', VUndefined), (''_JSSet'', VArr [])]) = Inl NotAnObject \<and>
   decode (VObj [(''_JSMap'', VArr [VNum 1])]) = Inl NotAnEntry \<and>
   decode_v1 (\<lambda>s. 0) (VObj [(''_JSMap'', VArr [VNum 1])]) = Inl NotAnEntry"
  by (simp add: decode_VObj decode_v1_VObj newMap_def map_of_pairs_def decode.simps(1)
      decode_v1_non_object)

text \<open>
  C10 (amended): when the first reserved tag key of a wire object, in the order of its
  entries, is \<open>_JSSet\<close> with an array whose elements decode, and the entries before it
  decode, \<open>decode\<close> returns the Set built from the decoded elements; the entries before
  and after the tag are not part of the result. Symmetrically for \<open>_JSMap\<close>, when moreover
  every decoded element is an object, which \<open>new Map\<close> reads as a key and a value:
  \<open>decode\<close> returns the Map built from these pairs. The same holds of the earlier
  revision.
\<close>

theorem decode_tag_precedence:
  shows "(no_tag_key pre \<and> siblings_decode pre \<and> mapM decode xs = Inr ys \<longrightarrow>
            decode (VObj (pre @ (''_JSSet'', VArr xs) # post)) = Inr (newSet ys) \<and>
            (mapM entry_of ys = Inr ps \<longrightarrow>
               decode (VObj (pre @ (''_JSMap'', VArr xs) # post)) = Inr (map_of_pairs ps))) \<and>
         (no_tag_key_v1 pre \<and> siblings_decode_v1 D pre \<and> mapM (decode_v1 D) xs = Inr zs \<longrightarrow>
            decode_v1 D (VObj (pre @ (''_JSSet'', VArr xs) # post)) = Inr (newSet zs) \<and>
            (mapM entry_of zs = Inr qs \<longrightarrow>
               decode_v1 D (VObj (pre @ (''_JSMap'', VArr xs) # post)) = Inr (map_of_pairs qs)))"
proof (intro conjI impI; elim conjE)
  assume h: "no_tag_key pre" "siblings_decode pre" and xs: "mapM decode xs = Inr ys"
  from decode_entries_skip_ok [OF h, of "(''_JSSet'', VArr xs) # post" "[]"]
  show "decode (VObj (pre @ (''_JSSet'', VArr xs) # post)) = Inr (newSet ys)"
    using tag_head(1) [OF xs] by (auto simp: decode_VObj)
  assume "mapM entry_of ys = Inr ps"
  then have "newMap ys = Inr (map_of_pairs ps)" by (simp add: newMap_def)
  with decode_entries_skip_ok [OF h, of "(''_JSMap'', VArr xs) # post" "[]"]
  show "decode (VObj (pre @ (''_JSMap'', VArr xs) # post)) = Inr (map_of_pairs ps)"
    using tag_head(2) [OF xs] by (auto simp: decode_VObj)
next
  assume h: "no_tag_key_v1 pre" "siblings_decode_v1 D pre"
    and xs: "mapM (decode_v1 D) xs = Inr zs"
  from decode_v1_entries_skip_ok [OF h, of "(''_JSSet'', VArr xs) # post" "[]"]
  show "decode_v1 D (VObj (pre @ (''_JSSet'', VArr xs) # post)) = Inr (newSet zs)"
    using tag_head_v1(1) [OF xs] by (auto simp: decode_v1_VObj)
  assume "mapM entry_of zs = Inr qs"
  then have "newMap zs = Inr (map_of_pairs qs)" by (simp add: newMap_def)
  with decode_v1_entries_skip_ok [OF h, of "(''_JSMap'', VArr xs) # post" "[]"]
  show "decode_v1 D (VObj (pre @ (''_JSMap'', VArr xs) # post)) = Inr (map_of_pairs qs)"
    using tag_head_v1(2) [OF xs] by (auto simp: decode_v1_VObj)
qed

theorem decode_tag_precedence_witness:
  "no_tag_key [(''a'', VNum 7)] \<and> siblings_decode [(''a'', VNum 7)] \<and>
   mapM decode [VArr [VStr ''k'', VNum 1], VArr [VStr ''j'', VNum 2], VArr [VStr ''k'', VNum 3]]
     = Inr [VArr [VStr ''k'', VNum 1], VArr [VStr ''j'', VNum 2], VArr [VStr ''k'', VNum 3]] \<and>
   mapM entry_of [VArr [VStr ''k'', VNum 1], VArr [VStr ''j'', VNum 2], VArr [VStr ''k'', VNum 3]]
     = Inr [(VStr ''k'', VNum 1), (VStr ''j'', VNum 2), (VStr ''k'', VNum 3)] \<and>
   no_tag_key_v1 [(''a'', VNum 7)] \<and> siblings_decode_v1 (\<lambda>s. 0) [(''a'', VNum 7)] \<and>
   mapM (decode_v1 (\<lambda>s. 0)) [VArr [VStr ''k'', VNum 1], VArr [VStr ''j'', VNum 2], VArr [VStr ''k'', VNum 3]]
     = Inr [VArr [VStr ''k'', VNum 1], VArr [VStr ''j'', VNum 2], VArr [VStr ''k'', VNum 3]] \<and>
   decode (VObj [(''a'', VNum 7),
                 (''_JSSet'', VArr [VArr [VStr ''k'', VNum 1], VArr [VStr ''j'', VNum 2], VArr [VStr ''k'', VNum 3]]),
                 (''b'', VNum 8)])
     = Inr (VSet [VArr [VStr ''k'', VNum 1], VArr [VStr ''j'', VNum 2], VArr [VStr ''k'', VNum 3]]) \<and>
   decode (VObj [(''a'', VNum 7),
                 (''_JSMap'', VArr [VArr [VStr ''k'', VNum 1], VArr [VStr ''j'', VNum 2], VArr [VStr ''k'', VNum 3]]),
                 (''b'', VNum 8)])
     = Inr (VMap [(VStr ''k'', VNum 3), (VStr ''j'', VNum 2)]) \<and>
   decode_v1 (\<lambda>s. 0)
       (VObj [(''a'', VNum 7),
              (''_JSSet'', VArr [VArr [VStr ''k'', VNum 1], VArr [VStr ''j'', VNum 2], VArr [VStr ''k'', VNum 3]]),
              (''b'', VNum 8)])
     = Inr (VSet [VArr [VStr ''k'', VNum 1], VArr [VStr ''j'', VNum 2], VArr [VStr ''k'', VNum 3]]) \<and>
   decode_v1 (\<lambda>s. 0)
       (VObj [(''a'', VNum 7),
              (''_JSMap'', VArr [VArr [VStr ''k'', VNum 1], VArr [VStr ''j'', VNum 2], VArr [VStr ''k'', VNum 3]]),
              (''b'', VNum 8)])
     = Inr (VMap [(VStr ''k'', VNum 3), (VStr ''j'', VNum 2)])"
proof -
  let ?xs = "[VArr [VStr ''k'', VNum 1], VArr [VStr ''j'', VNum 2], VArr [VStr ''k'', VNum 3]]"
  let ?ps = "[(VStr ''k'', VNum 1), (VStr ''j'', VNum 2), (VStr ''k'', VNum 3)]"
  have h: "no_tag_key [(''a'', VNum 7)]" "siblings_decode [(''a'', VNum 7)]"
    "mapM decode ?xs = Inr ?xs" "mapM entry_of ?xs = Inr ?ps"
    "no_tag_key_v1 [(''a'', VNum 7)]" "siblings_decode_v1 (\<lambda>s. 0) [(''a'', VNum 7)]"
    "mapM (decode_v1 (\<lambda>s. 0)) ?xs = Inr ?xs"
    by (simp_all add: no_tag_key_def siblings_decode_def no_tag_key_v1_def siblings_decode_v1_def
        decode_EJSON decode_VArr decode_v1_VArr decode_v1_non_object at_def)
  have s: "newSet ?xs = VSet ?xs"
    by (simp add: newSet_def set_add_def sameValueZero_def)
  have m: "map_of_pairs ?ps = VMap [(VStr ''k'', VNum 3), (VStr ''j'', VNum 2)]"
    by (simp add: map_of_pairs_def sameValueZero_def)
  show ?thesis
    using h s m decode_tag_precedence [of "[(''a'', VNum 7)]" ?xs ?xs "[(''b'', VNum 8)]" ?ps
        "\<lambda>s. 0" ?xs ?ps]
    by simp
qed

subsection \<open>The round trip\<close>

lemma encode_EJSON: "EJSONCompatible item \<Longrightarrow> encode item = Inr (EJSON_roundtrip item)"
  by (simp add: encode.simps)

lemma encode_VArr:
  "encode (VArr xs) = (case mapM encode xs of Inl e \<Rightarrow> Inl e | Inr encoded \<Rightarrow> Inr (VArr encoded))"
  by (simp add: encode.simps)

lemma encode_VSet:
  "encode (VSet xs) =
     (case mapM encode xs of Inl e \<Rightarrow> Inl e | Inr encoded \<Rightarrow> Inr (VObj [(''_JSSet'', VArr encoded)]))"
  by (simp add: encode.simps)

lemma encode_VMap:
  "encode (VMap ps) =
     (case mapM (\<lambda>(k, v).
             case encode k of
               Inl e \<Rightarrow> Inl e
             | Inr ek \<Rightarrow> (case encode v of Inl e \<Rightarrow> Inl e | Inr ev \<Rightarrow> Inr (VArr [ek, ev]))) ps of
        Inl e \<Rightarrow> Inl e
      | Inr encoded \<Rightarrow> Inr (VObj [(''_JSMap'', VArr encoded)]))"
  by (subst encode.simps) simp

lemma encode_VObj:
  "encode (VObj es) =
     (case mapM (\<lambda>(key, v). case encode v of Inl e \<Rightarrow> Inl e | Inr w \<Rightarrow> Inr (key, w)) es of
        Inl e \<Rightarrow> Inl e
      | Inr entries \<Rightarrow> Inr (fromEntries entries))"
  by (subst encode.simps) simp

lemma update_fresh: "k \<notin> fst ` set acc \<Longrightarrow> AList.update k v acc = acc @ [(k, v)]"
  by (induction acc) auto

lemma fold_update_distinct:
  "distinct (map fst (acc @ es)) \<Longrightarrow> fold (\<lambda>(k, v) obj. AList.update k v obj) es acc = acc @ es"
proof (induction es arbitrary: acc)
  case Nil
  then show ?case by simp
next
  case (Cons e es)
  obtain k v where e: "e = (k, v)" by (cases e)
  have "k \<notin> fst ` set acc" using Cons.prems e by auto
  then have "AList.update k v acc = acc @ [(k, v)]" by (rule update_fresh)
  moreover have "distinct (map fst ((acc @ [(k, v)]) @ es))" using Cons.prems e by simp
  ultimately show ?case using Cons.IH [of "acc @ [(k, v)]"] e by simp
qed

lemma fromEntries_distinct: "distinct (map fst es) \<Longrightarrow> fromEntries es = VObj es"
  using fold_update_distinct [of "[]" es] by (simp add: fromEntries_def)

lemma set_add_fresh:
  "\<not> (primitive x \<and> x \<in> set s) \<Longrightarrow> set_add s x = s @ [x]"
  by (auto simp: set_add_def list_ex_iff sameValueZero_def)

lemma fold_set_add_distinct:
  "distinct (filter primitive (acc @ xs)) \<Longrightarrow> fold (\<lambda>x s. set_add s x) xs acc = acc @ xs"
proof (induction xs arbitrary: acc)
  case Nil
  then show ?case by simp
next
  case (Cons x xs)
  have "\<not> (primitive x \<and> x \<in> set acc)" using Cons.prems by auto
  then have "set_add acc x = acc @ [x]" by (rule set_add_fresh)
  moreover have "distinct (filter primitive ((acc @ [x]) @ xs))" using Cons.prems by simp
  ultimately show ?case using Cons.IH [of "acc @ [x]"] by simp
qed

lemma newSet_distinct: "distinct (filter primitive xs) \<Longrightarrow> newSet xs = VSet xs"
  using fold_set_add_distinct [of "[]" xs] by (simp add: newSet_def)

lemma map_set_fresh:
  "\<not> (primitive k \<and> k \<in> fst ` set m) \<Longrightarrow> map_set m k v = m @ [(k, v)]"
  by (induction m) (auto simp: sameValueZero_def)

lemma fold_map_set_distinct:
  "distinct (filter primitive (map fst (acc @ ps))) \<Longrightarrow>
   fold (\<lambda>(k, v) m. map_set m k v) ps acc = acc @ ps"
proof (induction ps arbitrary: acc)
  case Nil
  then show ?case by simp
next
  case (Cons p ps)
  obtain k v where p: "p = (k, v)" by (cases p)
  have "\<not> (primitive k \<and> k \<in> fst ` set acc)" using Cons.prems p by auto
  then have "map_set acc k v = acc @ [(k, v)]" by (rule map_set_fresh)
  moreover have "distinct (filter primitive (map fst ((acc @ [(k, v)]) @ ps)))"
    using Cons.prems p by simp
  ultimately show ?case using Cons.IH [of "acc @ [(k, v)]"] p by simp
qed

lemma mapM_entry_of: "mapM entry_of (map_entries ps) = Inr ps"
  by (induction ps) (auto simp: map_entries_def at_def)

lemma newMap_distinct:
  "distinct (filter primitive (map fst ps)) \<Longrightarrow> newMap (map_entries ps) = Inr (VMap ps)"
  using fold_map_set_distinct [of "[]" ps] by (simp add: newMap_def map_of_pairs_def mapM_entry_of)

lemma mapM_roundtrip:
  "\<forall>x \<in> set xs. roundtrips x \<Longrightarrow> \<exists>ws. mapM encode xs = Inr ws \<and> mapM decode ws = Inr xs"
proof (induction xs)
  case Nil
  then show ?case by simp
next
  case (Cons x xs)
  then obtain w ws where "encode x = Inr w" "decode w = Inr x"
    "mapM encode xs = Inr ws" "mapM decode ws = Inr xs"
    by (auto simp: roundtrips_def)
  then show ?case by simp
qed

lemma mapM_pairs_roundtrip:
  "\<forall>(k, v) \<in> set ps. roundtrips k \<and> roundtrips v \<Longrightarrow>
   \<exists>ws. mapM (\<lambda>(k, v).
             case encode k of
               Inl e \<Rightarrow> Inl e
             | Inr ek \<Rightarrow> (case encode v of Inl e \<Rightarrow> Inl e | Inr ev \<Rightarrow> Inr (VArr [ek, ev]))) ps = Inr ws
      \<and> mapM decode ws = Inr (map_entries ps)"
proof (induction ps)
  case Nil
  then show ?case by (simp add: map_entries_def)
next
  case (Cons p ps)
  obtain k v where p: "p = (k, v)" by (cases p)
  from Cons p obtain ek ev ws where
    "encode k = Inr ek" "decode ek = Inr k" "encode v = Inr ev" "decode ev = Inr v"
    and ws: "mapM (\<lambda>(k, v).
             case encode k of
               Inl e \<Rightarrow> Inl e
             | Inr ek \<Rightarrow> (case encode v of Inl e \<Rightarrow> Inl e | Inr ev \<Rightarrow> Inr (VArr [ek, ev]))) ps = Inr ws"
      "mapM decode ws = Inr (map_entries ps)"
    by (auto simp: roundtrips_def)
  then show ?case using p by (simp add: decode_VArr map_entries_def)
qed

lemma entries_roundtrip:
  "no_tag_key es \<Longrightarrow> \<forall>(k, v) \<in> set es. roundtrips v \<Longrightarrow>
   \<exists>es'. mapM (\<lambda>(key, v). case encode v of Inl e \<Rightarrow> Inl e | Inr w \<Rightarrow> Inr (key, w)) es = Inr es'
      \<and> map fst es' = map fst es
      \<and> (\<forall>acc. decode_entries es' acc = Inr (fromEntries (acc @ es)))"
proof (induction es)
  case Nil
  then show ?case by simp
next
  case (Cons p es)
  obtain k v where p: "p = (k, v)" by (cases p)
  from Cons p obtain w es' where w: "encode v = Inr w" "decode w = Inr v"
    and es': "mapM (\<lambda>(key, v). case encode v of Inl e \<Rightarrow> Inl e | Inr w \<Rightarrow> Inr (key, w)) es = Inr es'"
      "map fst es' = map fst es" "\<And>acc. decode_entries es' acc = Inr (fromEntries (acc @ es))"
    by (auto simp: roundtrips_def no_tag_key_def)
  have k: "k \<noteq> ''_JSSet''" "k \<noteq> ''_JSMap''" using Cons.prems p by (auto simp: no_tag_key_def)
  have "decode_entries ((k, w) # es') acc = Inr (fromEntries (acc @ (k, v) # es))" for acc
  proof (cases "EJSONCompatible w")
    case True
    then have "w = v" using w(2) by (simp add: decode_EJSON)
    then show ?thesis using True k es'(3) [of "acc @ [(k, v)]"] by simp
  next
    case False
    then show ?thesis using k w es'(3) [of "acc @ [(k, v)]"] by simp
  qed
  then show ?case using p w es' by simp
qed

lemma roundtrips_all: "wellformed v \<Longrightarrow> supported v \<Longrightarrow> tag_free v \<Longrightarrow> roundtrips v"
proof (induction v)
  case (VArr xs)
  then have "\<forall>x \<in> set xs. roundtrips x" by (auto simp: list_all_iff)
  from mapM_roundtrip [OF this] show ?case
    by (auto simp: roundtrips_def encode_VArr decode_VArr)
next
  case (VSet xs)
  then have "\<forall>x \<in> set xs. roundtrips x" by (auto simp: list_all_iff)
  from mapM_roundtrip [OF this] obtain ws where "mapM encode xs = Inr ws" "mapM decode ws = Inr xs"
    by auto
  moreover have "newSet xs = VSet xs" using VSet.prems by (simp add: newSet_distinct)
  ultimately show ?case by (simp add: roundtrips_def encode_VSet decode_VObj)
next
  case (VMap ps)
  have "\<forall>(k, v) \<in> set ps. roundtrips k \<and> roundtrips v"
  proof (clarify)
    fix k v assume kv: "(k, v) \<in> set ps"
    then have "wellformed k" "supported k" "tag_free k" "wellformed v" "supported v" "tag_free v"
      using VMap.prems by (auto simp: list_all_iff)
    moreover have "k \<in> Basic_BNFs.fsts (k, v)" "v \<in> Basic_BNFs.snds (k, v)" by simp_all
    ultimately show "roundtrips k \<and> roundtrips v" using VMap.IH kv by blast
  qed
  from mapM_pairs_roundtrip [OF this] obtain ws where
    "mapM (\<lambda>(k, v).
             case encode k of
               Inl e \<Rightarrow> Inl e
             | Inr ek \<Rightarrow> (case encode v of Inl e \<Rightarrow> Inl e | Inr ev \<Rightarrow> Inr (VArr [ek, ev]))) ps = Inr ws"
    "mapM decode ws = Inr (map_entries ps)" by auto
  moreover have "newMap (map_entries ps) = Inr (VMap ps)"
    using VMap.prems by (simp add: newMap_distinct)
  ultimately show ?case by (simp add: roundtrips_def encode_VMap decode_VObj)
next
  case (VObj es)
  have "\<forall>(k, v) \<in> set es. roundtrips v"
  proof (clarify)
    fix k v assume kv: "(k, v) \<in> set es"
    then have "wellformed v" "supported v" "tag_free v"
      using VObj.prems by (auto simp: list_all_iff)
    moreover have "v \<in> Basic_BNFs.snds (k, v)" by simp
    ultimately show "roundtrips v" using VObj.IH kv by blast
  qed
  moreover have "no_tag_key es" using VObj.prems by simp
  ultimately obtain es' where
    es': "mapM (\<lambda>(key, v). case encode v of Inl e \<Rightarrow> Inl e | Inr w \<Rightarrow> Inr (key, w)) es = Inr es'"
      "map fst es' = map fst es" "\<And>acc. decode_entries es' acc = Inr (fromEntries (acc @ es))"
    using entries_roundtrip [of es] by auto
  have d: "distinct (map fst es)" using VObj.prems by simp
  then have "fromEntries es' = VObj es'" "fromEntries es = VObj es"
    using es'(2) by (simp_all add: fromEntries_distinct)
  then show ?case using es' by (simp add: roundtrips_def encode_VObj decode_VObj)
qed (simp_all add: roundtrips_def encode_EJSON decode_EJSON)

lemma match_all_list_all2: "list_all2 eq xs ys \<Longrightarrow> match_all eq xs ys"
  by (induction rule: list_all2_induct) auto

lemma equal_deep_refl: "wellformed v \<Longrightarrow> equal_deep v v"
proof (induction v)
  case (VArr xs)
  then have "list_all2 equal_deep xs xs" by (auto simp: list_all2_same list_all_iff)
  then show ?case by (simp add: equal_deep.simps)
next
  case (VSet xs)
  then have "list_all2 equal_deep xs xs" by (auto simp: list_all2_same list_all_iff)
  then show ?case by (simp add: equal_deep.simps match_all_list_all2)
next
  case (VMap ps)
  have "list_all2 (\<lambda>(k, v) (k', v'). equal_deep k k' \<and> equal_deep v v') ps ps"
    unfolding list_all2_same
  proof (clarify)
    fix k v assume kv: "(k, v) \<in> set ps"
    then have "wellformed k" "wellformed v" using VMap.prems by (auto simp: list_all_iff)
    moreover have "k \<in> Basic_BNFs.fsts (k, v)" "v \<in> Basic_BNFs.snds (k, v)" by simp_all
    ultimately show "equal_deep k k \<and> equal_deep v v" using VMap.IH kv by blast
  qed
  then show ?case by (simp add: equal_deep.simps match_all_list_all2)
next
  case (VObj es)
  have "list_all (\<lambda>(k, v). case map_of es k of None \<Rightarrow> False | Some v' \<Rightarrow> equal_deep v v') es"
    unfolding list_all_iff
  proof (clarify)
    fix k v assume kv: "(k, v) \<in> set es"
    then have "wellformed v" using VObj.prems by (auto simp: list_all_iff)
    moreover have "v \<in> Basic_BNFs.snds (k, v)" by simp
    ultimately have "equal_deep v v" using VObj.IH kv by blast
    moreover have "map_of es k = Some v" using VObj.prems kv by simp
    ultimately show "case map_of es k of None \<Rightarrow> False | Some v' \<Rightarrow> equal_deep v v'" by simp
  qed
  then show ?case by (simp add: equal_deep.simps)
qed (simp_all add: equal_deep.simps)

subsection \<open>The round trip of the earlier revision\<close>

lemma encode_v1_leaf: "typeof item \<noteq> TObject \<or> item = VNull \<Longrightarrow> encode_v1 L item = item"
  by (simp add: encode_v1.simps)

lemma decode_v1_leaf: "typeof item \<noteq> TObject \<or> item = VNull \<Longrightarrow> decode_v1 D item = Inr item"
  by (simp add: decode_v1.simps(1))

lemma encode_v1_VArr: "encode_v1 L (VArr xs) = VArr (map (encode_v1 L) xs)"
  by (subst encode_v1.simps) simp

lemma encode_v1_VSet: "encode_v1 L (VSet xs) = VObj [(''_JSSet'', VArr (map (encode_v1 L) xs))]"
  by (subst encode_v1.simps) simp

lemma encode_v1_VMap:
  "encode_v1 L (VMap ps) =
     VObj [(''_JSMap'', VArr (map (\<lambda>(k, v). VArr [encode_v1 L k, encode_v1 L v]) ps))]"
  by (subst encode_v1.simps) simp

lemma encode_v1_VDate: "encode_v1 L (VDate t) = VObj [(''_JSDate'', VStr (L t))]"
  by (subst encode_v1.simps) simp

lemma encode_v1_VObj:
  "encode_v1 L (VObj es) = fromEntries (map (\<lambda>(key, v). (key, encode_v1 L v)) es)"
  by (subst encode_v1.simps) simp

lemma id_leaf_encode_v1: "id_leaf v \<Longrightarrow> encode_v1 L v = v"
  by (cases v) (simp_all add: encode_v1_leaf, subst encode_v1.simps, simp)

lemma update_twice: "AList.update k v (AList.update k v al) = AList.update k v al"
  by (induction al) auto

lemma mapM_map_id: "(\<And>x. x \<in> set xs \<Longrightarrow> f (g x) = Inr x) \<Longrightarrow> mapM f (map g xs) = Inr xs"
  by (induction xs) auto

lemma decode_v1_fields:
  assumes "no_tag_key_v1 es"
    and "list_all2 (\<lambda>(k, w) (k', v). k' = k \<and> (if k = ''_id'' then v = w else decode_v1 D w = Inr v)) es vs"
  shows "decode_v1_entries D es acc =
           Inr (VObj (fold (\<lambda>(k, v) obj. AList.update k v obj) vs
                        (fold (\<lambda>(k, v) obj. AList.update k v obj) acc [])))"
  using assms
proof (induction es arbitrary: acc vs)
  case Nil
  then show ?case by (simp add: fromEntries_def)
next
  case (Cons e es)
  obtain k w where e: "e = (k, w)" by (cases e)
  from Cons.prems(2) e obtain v vs' where vs: "vs = (k, v) # vs'"
    "if k = ''_id'' then v = w else decode_v1 D w = Inr v"
    "list_all2 (\<lambda>(k, w) (k', v). k' = k \<and> (if k = ''_id'' then v = w else decode_v1 D w = Inr v)) es vs'"
    by (auto simp: list_all2_Cons1)
  have nt: "k \<noteq> ''_JSSet''" "k \<noteq> ''_JSMap''" "k \<noteq> ''_JSDate''" "no_tag_key_v1 es"
    using Cons.prems(1) e by (simp_all add: no_tag_key_v1_def)
  note IH = Cons.IH [OF nt(4) vs(3)]
  show ?case
  proof (cases "k = ''_id''")
    case True
    then show ?thesis using IH [of "acc @ [(k, w)]"] vs(1,2) e by simp
  next
    case False
    then have d: "decode_v1 D w = Inr v" using vs(2) by simp
    show ?thesis
      using IH [of "acc @ [(k, v)]"] IH [of "acc @ [(k, v), (k, v)]"] False nt d vs(1) e
      by (simp add: update_twice)
  qed
qed

lemma roundtrips_v1:
  "wellformed v \<Longrightarrow> supported_v1 L D v \<Longrightarrow> tag_free_v1 v \<Longrightarrow> decode_v1 D (encode_v1 L v) = Inr v"
proof (induction v)
  case (VArr xs)
  then have "\<And>x. x \<in> set xs \<Longrightarrow> decode_v1 D (encode_v1 L x) = Inr x" by (auto simp: list_all_iff)
  then have "mapM (decode_v1 D) (map (encode_v1 L) xs) = Inr xs" by (rule mapM_map_id)
  then show ?case by (simp add: encode_v1_VArr decode_v1_VArr)
next
  case (VSet xs)
  then have "\<And>x. x \<in> set xs \<Longrightarrow> decode_v1 D (encode_v1 L x) = Inr x" by (auto simp: list_all_iff)
  then have "mapM (decode_v1 D) (map (encode_v1 L) xs) = Inr xs" by (rule mapM_map_id)
  moreover have "newSet xs = VSet xs" using VSet.prems by (simp add: newSet_distinct)
  ultimately show ?case by (simp add: encode_v1_VSet decode_v1_VObj)
next
  case (VMap ps)
  have "\<And>p. p \<in> set ps \<Longrightarrow>
      decode_v1 D ((\<lambda>(k, v). VArr [encode_v1 L k, encode_v1 L v]) p) = Inr ((\<lambda>(k, v). VArr [k, v]) p)"
  proof -
    fix p assume p: "p \<in> set ps"
    obtain k v where kv: "p = (k, v)" by (cases p)
    then have "wellformed k" "supported_v1 L D k" "tag_free_v1 k"
      "wellformed v" "supported_v1 L D v" "tag_free_v1 v"
      using VMap.prems p by (auto simp: list_all_iff)
    moreover have "k \<in> Basic_BNFs.fsts (k, v)" "v \<in> Basic_BNFs.snds (k, v)" by simp_all
    ultimately have "decode_v1 D (encode_v1 L k) = Inr k" "decode_v1 D (encode_v1 L v) = Inr v"
      using VMap.IH p kv by blast+
    then show "decode_v1 D ((\<lambda>(k, v). VArr [encode_v1 L k, encode_v1 L v]) p) = Inr ((\<lambda>(k, v). VArr [k, v]) p)"
      using kv by (simp add: decode_v1_VArr)
  qed
  then have "mapM (decode_v1 D) (map (\<lambda>(k, v). VArr [encode_v1 L k, encode_v1 L v]) ps)
      = Inr (map_entries ps)"
    unfolding map_entries_def by (induction ps) auto
  moreover have "newMap (map_entries ps) = Inr (VMap ps)"
    using VMap.prems by (simp add: newMap_distinct)
  ultimately show ?case by (simp add: encode_v1_VMap decode_v1_VObj)
next
  case (VObj es)
  let ?ws = "map (\<lambda>(key, v). (key, encode_v1 L v)) es"
  have keys: "map fst ?ws = map fst es" by (induction es) auto
  have d: "distinct (map fst es)" using VObj.prems by simp
  have "distinct (map fst ?ws)" using d by (simp only: keys)
  then have enc: "encode_v1 L (VObj es) = VObj ?ws"
    by (simp only: encode_v1_VObj fromEntries_distinct)
  have nt: "no_tag_key_v1 ?ws" using VObj.prems(3) by (auto simp: no_tag_key_v1_def list_all_iff)
  have "list_all2 (\<lambda>(k, w) (k', v). k' = k \<and> (if k = ''_id'' then v = w else decode_v1 D w = Inr v)) ?ws es"
    unfolding list_all2_map1
  proof (rule list_all2_all_nthI)
    fix n assume n: "n < length es"
    obtain k v where kv: "es ! n = (k, v)" by (cases "es ! n")
    then have mem: "(k, v) \<in> set es" using n nth_mem by metis
    have "k \<noteq> ''_id'' \<Longrightarrow> decode_v1 D (encode_v1 L v) = Inr v"
    proof -
      assume "k \<noteq> ''_id''"
      then have "wellformed v" "supported_v1 L D v" "tag_free_v1 v"
        using VObj.prems mem by (auto simp: list_all_iff)
      moreover have "v \<in> Basic_BNFs.snds (k, v)" by simp
      ultimately show ?thesis using VObj.IH mem by blast
    qed
    moreover have "k = ''_id'' \<Longrightarrow> encode_v1 L v = v"
      using VObj.prems(2) mem by (auto simp: list_all_iff id_leaf_encode_v1)
    ultimately show "(case case es ! n of (key, v) \<Rightarrow> (key, encode_v1 L v) of
           (k, w) \<Rightarrow> \<lambda>(k', v). k' = k \<and> (if k = ''_id'' then v = w else decode_v1 D w = Inr v))
          (es ! n)"
      using kv by auto
  qed simp
  from decode_v1_fields [OF nt this, of "[]"]
  have "decode_v1 D (VObj ?ws) = Inr (fromEntries es)" by (simp add: decode_v1_VObj fromEntries_def)
  then show ?case using enc d by (simp add: fromEntries_distinct)
next
  case (VDate t)
  then show ?case by (simp add: encode_v1_VDate decode_v1_VObj)
qed (simp_all add: encode_v1_leaf decode_v1_leaf)

subsection \<open>The round trip, in both revisions\<close>

text \<open>
  C2, as stated, fails on a binary blob, which the spec counts among the supported
  values: the driver's serialisation round trip, which \<open>encode\<close> applies to a Uint8Array,
  returns the plain object of its indexed bytes, and that is what \<open>decode\<close> gives back.
  In the earlier revision it fails on an ObjectId in a field other than \<open>_id\<close>, which
  \<open>decode\<close> walks as an object without entries, and on a Date that its formatted string
  does not determine: here, as with \<open>toLocaleString\<close>, a date is formatted to the second
  (one character per second), and a date with milliseconds comes back without them.
\<close>

theorem transcoder_roundtrip_counterexample:
  "encode (VObj [(''b'', VBin [1, 2, 3])])
     = Inr (VObj [(''b'', VObj [(''0'', VNum 1), (''1'', VNum 2), (''2'', VNum 3)])]) \<and>
   decode (VObj [(''b'', VObj [(''0'', VNum 1), (''1'', VNum 2), (''2'', VNum 3)])])
     = Inr (VObj [(''b'', VObj [(''0'', VNum 1), (''1'', VNum 2), (''2'', VNum 3)])]) \<and>
   \<not> equal_deep (VObj [(''b'', VObj [(''0'', VNum 1), (''1'', VNum 2), (''2'', VNum 3)])])
        (VObj [(''b'', VBin [1, 2, 3])]) \<and>
   decode_v1 (\<lambda>s. 1000 * int (length s))
       (encode_v1 (\<lambda>t. replicate (nat (t div 1000)) CHR ''s'') (VObj [(''ref'', VObjectId ''65f0'')]))
     = Inr (VObj [(''ref'', VObj [])]) \<and>
   \<not> equal_deep (VObj [(''ref'', VObj [])]) (VObj [(''ref'', VObjectId ''65f0'')]) \<and>
   decode_v1 (\<lambda>s. 1000 * int (length s))
       (encode_v1 (\<lambda>t. replicate (nat (t div 1000)) CHR ''s'') (VObj [(''at'', VDate 2500)]))
     = Inr (VObj [(''at'', VDate 2000)]) \<and>
   \<not> equal_deep (VObj [(''at'', VDate 2000)]) (VObj [(''at'', VDate 2500)])"
  by code_simp

text \<open>
  C2 (amended): for every value \<open>v\<close> of the language (hence well-formed) that is built
  from strings, numbers, booleans, null, ObjectIds, Dates, arrays, Sets, Maps and plain
  objects, none of whose plain objects has a reserved tag key, \<open>encode\<close> succeeds, \<open>decode\<close>
  succeeds on the result, and the decoded value is deep-equal to \<open>v\<close>: nested Sets of
  Maps, Maps of Sets, empty collections, nested objects and Dates are among these values,
  binary blobs are not. In the earlier revision the same holds of the values in which an
  ObjectId occurs only as the value of a field \<open>_id\<close> (which then holds an ObjectId or a
  primitive), every Date is one that parsing its formatted string gives back, and no
  plain object has the key \<open>_JSDate\<close> either.
\<close>

theorem transcoder_roundtrip:
  assumes "wellformed v"
  shows "(supported v \<and> tag_free v \<longrightarrow>
            (\<exists>w v'. encode v = Inr w \<and> decode w = Inr v' \<and> equal_deep v' v)) \<and>
         (supported_v1 L D v \<and> tag_free_v1 v \<longrightarrow>
            (\<exists>v'. decode_v1 D (encode_v1 L v) = Inr v' \<and> equal_deep v' v))"
  using roundtrips_all [OF assms] roundtrips_v1 [OF assms] equal_deep_refl [OF assms]
  by (auto simp: roundtrips_def)

theorem transcoder_roundtrip_witness:
  "wellformed (VObj [(''_id'', VObjectId ''65f0''),
                     (''tags'', VSet [VNum 1, VMap [(VStr ''k'', VSet [])], VMap []]),
                     (''seen'', VMap [(VObj [(''a'', VArr [])], VSet [VMap [(VNum 1, VDate 5000)]])]),
                     (''at'', VDate 3000), (''o'', VObj [(''p'', VObj [(''q'', VObj [])])])]) \<and>
   supported (VObj [(''_id'', VObjectId ''65f0''),
                     (''tags'', VSet [VNum 1, VMap [(VStr ''k'', VSet [])], VMap []]),
                     (''seen'', VMap [(VObj [(''a'', VArr [])], VSet [VMap [(VNum 1, VDate 5000)]])]),
                     (''at'', VDate 3000), (''o'', VObj [(''p'', VObj [(''q'', VObj [])])])]) \<and>
   tag_free (VObj [(''_id'', VObjectId ''65f0''),
                     (''tags'', VSet [VNum 1, VMap [(VStr ''k'', VSet [])], VMap []]),
                     (''seen'', VMap [(VObj [(''a'', VArr [])], VSet [VMap [(VNum 1, VDate 5000)]])]),
                     (''at'', VDate 3000), (''o'', VObj [(''p'', VObj [(''q'', VObj [])])])]) \<and>
   supported_v1 (\<lambda>t. replicate (nat (t div 1000)) CHR ''s'') (\<lambda>s. 1000 * int (length s))
     (VObj [(''_id'', VObjectId ''65f0''),
                     (''tags'', VSet [VNum 1, VMap [(VStr ''k'', VSet [])], VMap []]),
                     (''seen'', VMap [(VObj [(''a'', VArr [])], VSet [VMap [(VNum 1, VDate 5000)]])]),
                     (''at'', VDate 3000), (''o'', VObj [(''p'', VObj [(''q'', VObj [])])])]) \<and>
   tag_free_v1 (VObj [(''_id'', VObjectId ''65f0''),
                     (''tags'', VSet [VNum 1, VMap [(VStr ''k'', VSet [])], VMap []]),
                     (''seen'', VMap [(VObj [(''a'', VArr [])], VSet [VMap [(VNum 1, VDate 5000)]])]),
                     (''at'', VDate 3000), (''o'', VObj [(''p'', VObj [(''q'', VObj [])])])]) \<and>
   (\<exists>w v'. encode (VObj [(''_id'', VObjectId ''65f0''),
                     (''tags'', VSet [VNum 1, VMap [(VStr ''k'', VSet [])], VMap []]),
                     (''seen'', VMap [(VObj [(''a'', VArr [])], VSet [VMap [(VNum 1, VDate 5000)]])]),
                     (''at'', VDate 3000), (''o'', VObj [(''p'', VObj [(''q'', VObj [])])])]) = Inr w \<and>
      decode w = Inr v' \<and>
      equal_deep v' (VObj [(''_id'', VObjectId ''65f0''),
                     (''tags'', VSet [VNum 1, VMap [(VStr ''k'', VSet [])], VMap []]),
                     (''seen'', VMap [(VObj [(''a'', VArr [])], VSet [VMap [(VNum 1, VDate 5000)]])]),
                     (''at'', VDate 3000), (''o'', VObj [(''p'', VObj [(''q'', VObj [])])])])) \<and>
   (\<exists>v'. decode_v1 (\<lambda>s. 1000 * int (length s))
            (encode_v1 (\<lambda>t. replicate (nat (t div 1000)) CHR ''s'')
               (VObj [(''_id'', VObjectId ''65f0''),
                     (''tags'', VSet [VNum 1, VMap [(VStr ''k'', VSet [])], VMap []]),
                     (''seen'', VMap [(VObj [(''a'', VArr [])], VSet [VMap [(VNum 1, VDate 5000)]])]),
                     (''at'', VDate 3000), (''o'', VObj [(''p'', VObj [(''q'', VObj [])])])])) = Inr v' \<and>
      equal_deep v' (VObj [(''_id'', VObjectId ''65f0''),
                     (''tags'', VSet [VNum 1, VMap [(VStr ''k'', VSet [])], VMap []]),
                     (''seen'', VMap [(VObj [(''a'', VArr [])], VSet [VMap [(VNum 1, VDate 5000)]])]),
                     (''at'', VDate 3000), (''o'', VObj [(''p'', VObj [(''q'', VObj [])])])]))"
proof -
  let ?v = "VObj [(''_id'', VObjectId ''65f0''),
                     (''tags'', VSet [VNum 1, VMap [(VStr ''k'', VSet [])], VMap []]),
                     (''seen'', VMap [(VObj [(''a'', VArr [])], VSet [VMap [(VNum 1, VDate 5000)]])]),
                     (''at'', VDate 3000), (''o'', VObj [(''p'', VObj [(''q'', VObj [])])])]"
  let ?L = "\<lambda>t. replicate (nat (t div 1000)) CHR ''s''"
  let ?D = "\<lambda>s. 1000 * int (length s)"
  have h: "wellformed ?v" "supported ?v" "tag_free ?v" "supported_v1 ?L ?D ?v" "tag_free_v1 ?v"
    by (simp_all add: no_tag_key_def no_tag_key_v1_def)
  show ?thesis using h transcoder_roundtrip [OF h(1), of ?L ?D] by blast
qed

section \<open>Properties of the differencer\<close>

lemma parse_new [simp]: "parse new_UpdateFilter = []"
  by (simp add: parse_def new_UpdateFilter_def)

lemma unset_removed_subset:
  "set ks \<subseteq> set bKeys \<Longrightarrow>
   fold (\<lambda>k diff. if k \<in> set bKeys then diff
                   else diff\<lparr>d_unset := AList.update (path prefix k) (VStr []) (d_unset diff)\<rparr>) ks d = d"
  by (induction ks arbitrary: d) auto

lemma unset_removed_same [simp]: "unset_removed prefix ks ks = new_UpdateFilter"
  by (simp add: unset_removed_def unset_removed_subset)

lemma changes_loop_unchanged:
  "\<forall>(k, v) \<in> set es. changes (path prefix k) (getprop a k) v = Inr new_UpdateFilter \<Longrightarrow>
   changes_loop prefix a es d = Inr d"
  by (induction es arbitrary: d) auto

lemma getprop_entry: "distinct (map fst es) \<Longrightarrow> (k, v) \<in> set es \<Longrightarrow> getprop (VObj es) k = v"
  by (simp add: getprop_def)

lemma changes_same: "wellformed v \<Longrightarrow> defined_fields v \<Longrightarrow> changes prefix v v = Inr new_UpdateFilter"
proof (induction v arbitrary: prefix)
  case (VObj es)
  have "\<forall>(k, v) \<in> set es. changes (path prefix k) (getprop (VObj es) k) v = Inr new_UpdateFilter"
  proof (clarify)
    fix k v assume kv: "(k, v) \<in> set es"
    then have "wellformed v" "defined_fields v" using VObj.prems by (auto simp: list_all_iff)
    moreover have "v \<in> Basic_BNFs.snds (k, v)" by simp
    ultimately have "changes (path prefix k) v v = Inr new_UpdateFilter"
      using VObj.IH kv by blast
    moreover have "getprop (VObj es) k = v" using VObj.prems kv by (simp add: getprop_entry)
    ultimately show "changes (path prefix k) (getprop (VObj es) k) v = Inr new_UpdateFilter"
      by simp
  qed
  from changes_loop_unchanged [OF this]
  show ?case by (simp add: changes.simps(1) RecordLike_def Object_keys_def)
next
  case (VArr xs)
  then show ?case using equal_deep_refl [of "VArr xs"] by (simp add: changes.simps(1))
next
  case (VSet xs)
  then show ?case using equal_deep_refl [of "VSet xs"] by (simp add: changes.simps(1))
next
  case (VMap ps)
  then show ?case using equal_deep_refl [of "VMap ps"] by (simp add: changes.simps(1))
qed (simp_all add: changes.simps(1) equal_deep.simps)

text \<open>
  C7, as stated, fails on the absent value: \<open>changes\<close> answers an undefined \<open>b\<close> with an
  \<open>$unset\<close> before it compares the two sides, so a field that is undefined on both sides
  is unset.
\<close>

theorem changes_same_counterexample:
  "changes ''x'' VUndefined VUndefined = Inr (new_UpdateFilter\<lparr>d_unset := [(''x'', VStr [])]\<rparr>) \<and>
   changes [] (VObj [(''a'', VUndefined)]) (VObj [(''a'', VUndefined)])
     = Inr (new_UpdateFilter\<lparr>d_unset := [(''a'', VStr [])]\<rparr>)"
  by (simp add: changes.simps(1) RecordLike_def Object_keys_def getprop_def path_def
      parse_def new_UpdateFilter_def assign_oper_def Object_assign_def)

text \<open>
  C7 (amended): for every value \<open>v\<close> (of the language, hence well-formed) that is not
  undefined and has no undefined field in its nested plain objects, and every prefix,
  \<open>changes(prefix, v, v)\<close> returns the empty filter: no path under any operator.
\<close>

theorem changes_idempotent:
  assumes "wellformed v" and "defined_fields v"
  shows "changes prefix v v = Inr new_UpdateFilter \<and> parse new_UpdateFilter = []"
  using changes_same [OF assms] by simp

theorem changes_idempotent_witness:
  "wellformed (VObj [(''tags'', VSet [VNum 1, VArr [VUndefined]]), (''o'', VObj [(''d'', VDate 3)])]) \<and>
   defined_fields (VObj [(''tags'', VSet [VNum 1, VArr [VUndefined]]), (''o'', VObj [(''d'', VDate 3)])]) \<and>
   changes [] (VObj [(''tags'', VSet [VNum 1, VArr [VUndefined]]), (''o'', VObj [(''d'', VDate 3)])])
      (VObj [(''tags'', VSet [VNum 1, VArr [VUndefined]]), (''o'', VObj [(''d'', VDate 3)])])
     = Inr new_UpdateFilter"
proof -
  let ?v = "VObj [(''tags'', VSet [VNum 1, VArr [VUndefined]]), (''o'', VObj [(''d'', VDate 3)])]"
  have h: "wellformed ?v" "defined_fields ?v" by simp_all
  show ?thesis using h changes_idempotent [OF h, of "[]"] by simp
qed

subsection \<open>The paths of a filter\<close>

lemma path_under_iff: "path_under q p \<longleftrightarrow> (\<exists>s. p = q @ s \<and> (s = [] \<or> hd s = CHR ''.''))"
proof
  assume "path_under q p"
  then consider "p = q" | "take (Suc (length q)) p = q @ ''.''" by (auto simp: path_under_def)
  then show "\<exists>s. p = q @ s \<and> (s = [] \<or> hd s = CHR ''.'')"
  proof cases
    case 1
    then show ?thesis by auto
  next
    case 2
    then have "p = (q @ ''.'') @ drop (Suc (length q)) p"
      by (metis append_take_drop_id)
    then have "p = q @ (CHR ''.'' # drop (Suc (length q)) p)" by simp
    then show ?thesis by (metis list.sel(1))
  qed
next
  assume "\<exists>s. p = q @ s \<and> (s = [] \<or> hd s = CHR ''.'')"
  then obtain s where s: "p = q @ s" "s = [] \<or> hd s = CHR ''.''" by auto
  show "path_under q p"
  proof (cases s)
    case Nil
    then show ?thesis using s by (simp add: path_under_def)
  next
    case (Cons c cs)
    then show ?thesis using s by (simp add: path_under_def)
  qed
qed

lemma takeWhile_key:
  "CHR ''.'' \<notin> set k \<Longrightarrow> s = [] \<or> hd s = CHR ''.'' \<Longrightarrow> takeWhile (\<lambda>c. c \<noteq> CHR ''.'') (k @ s) = k"
  by (induction k) (cases s; auto)+

lemma path_under_path_inj:
  assumes "good_key k1" "good_key k2" "path_under (path P k1) p" "path_under (path P k2) p"
  shows "k1 = k2"
proof -
  from assms(3) obtain s1 where s1: "p = path P k1 @ s1" "s1 = [] \<or> hd s1 = CHR ''.''"
    unfolding path_under_iff by blast
  from assms(4) obtain s2 where s2: "p = path P k2 @ s2" "s2 = [] \<or> hd s2 = CHR ''.''"
    unfolding path_under_iff by blast
  note s = s1 s2
  have "k1 @ s1 = k2 @ s2" using s(1,3) by (auto simp: path_def split: if_splits)
  then have "takeWhile (\<lambda>c. c \<noteq> CHR ''.'') (k1 @ s1) = takeWhile (\<lambda>c. c \<noteq> CHR ''.'') (k2 @ s2)"
    by simp
  then show ?thesis using assms(1,2) s(2,4) by (simp add: takeWhile_key good_key_def)
qed

lemma path_under_refl [simp]: "path_under q q"
  by (simp add: path_under_def)

lemma path_under_tag [simp]: "path_under q (q @ CHR ''.'' # r)"
  by (simp add: path_under_def)

lemma path_under_path_prefix: "P \<noteq> [] \<Longrightarrow> path_under (path P k) p \<Longrightarrow> path_under P p"
  by (auto simp: path_under_iff path_def)

lemma path_nonempty: "good_key k \<Longrightarrow> path P k \<noteq> []"
  by (auto simp: path_def good_key_def)

lemma keys_Object_assign: "fst ` set (Object_assign t vs) = fst ` set t \<union> fst ` set vs"
  unfolding Object_assign_def
proof (induction vs arbitrary: t)
  case Nil
  then show ?case by simp
next
  case (Cons p vs)
  obtain k v where p: "p = (k, v)" by (cases p)
  have "fst ` set (AList.update k v t) = insert k (fst ` set t)"
    using dom_update [of k v t] by simp
  then show ?case using Cons [of "AList.update k v t"] p by auto
qed

lemma keys_delete: "fst ` set (AList.delete k m) = fst ` set m - {k}"
  by (induction m) auto

lemma Object_assign_Nil [simp]: "Object_assign t [] = t"
  by (simp add: Object_assign_def)

lemma merge_fields:
  "d_push (fold (\<lambda>ov d. assign_oper d ov) (parse c) diff) = Object_assign (d_push diff) (AList.delete ''_id'' (d_push c))"
  "d_set (fold (\<lambda>ov d. assign_oper d ov) (parse c) diff) = Object_assign (d_set diff) (AList.delete ''_id'' (d_set c))"
  "d_unset (fold (\<lambda>ov d. assign_oper d ov) (parse c) diff) = Object_assign (d_unset diff) (AList.delete ''_id'' (d_unset c))"
  by (cases "d_push c"; cases "d_set c"; cases "d_unset c"; simp add: parse_def assign_oper_def)+


lemma unset_removed_fold:
  "d_push (fold (\<lambda>k diff. if k \<in> set bKeys then diff
                   else diff\<lparr>d_unset := AList.update (path P k) (VStr []) (d_unset diff)\<rparr>) ks d) = d_push d \<and>
   d_set (fold (\<lambda>k diff. if k \<in> set bKeys then diff
                   else diff\<lparr>d_unset := AList.update (path P k) (VStr []) (d_unset diff)\<rparr>) ks d) = d_set d \<and>
   fst ` set (d_unset (fold (\<lambda>k diff. if k \<in> set bKeys then diff
                   else diff\<lparr>d_unset := AList.update (path P k) (VStr []) (d_unset diff)\<rparr>) ks d))
     = fst ` set (d_unset d) \<union> path P ` (set ks - set bKeys)"
proof (induction ks arbitrary: d)
  case Nil
  then show ?case by simp
next
  case (Cons k ks)
  have "fst ` set (AList.update (path P k) (VStr []) (d_unset d)) = insert (path P k) (fst ` set (d_unset d))"
    using dom_update [of "path P k" "VStr []" "d_unset d"] by simp
  then show ?case
    using Cons [of d] Cons [of "d\<lparr>d_unset := AList.update (path P k) (VStr []) (d_unset d)\<rparr>"]
    by auto
qed

lemma unset_removed_fields:
  "d_push (unset_removed P aKeys bKeys) = []"
  "d_set (unset_removed P aKeys bKeys) = []"
  "fst ` set (d_unset (unset_removed P aKeys bKeys)) = path P ` (set aKeys - set bKeys)"
  using unset_removed_fold [of bKeys P aKeys new_UpdateFilter]
  by (simp_all add: unset_removed_def new_UpdateFilter_def)

lemma set_encoded_paths:
  "set_encoded prefix b = Inr d \<Longrightarrow> disjoint_opers d \<and> (\<forall>p \<in> all_paths d. path_under prefix p)"
  by (auto simp: set_encoded_def disjoint_opers_def all_paths_def new_UpdateFilter_def
      split: sum.splits)

lemma push_tail_paths:
  "push_tail key bs i n = Inr d \<Longrightarrow> path_under prefix key \<Longrightarrow>
   disjoint_opers d \<and> (\<forall>p \<in> all_paths d. path_under prefix p)"
  by (auto simp: push_tail_def disjoint_opers_def all_paths_def new_UpdateFilter_def
      split: sum.splits)

lemma changes_container_paths:
  assumes "changes_container prefix a b = Inr d"
  shows "disjoint_opers d \<and> (\<forall>p \<in> all_paths d. path_under prefix p)"
proof (cases b)
  case (VSet bs)
  then show ?thesis using assms set_encoded_paths [of prefix b d]
      push_tail_paths [of "prefix @ ''._JSSet''" bs _ "length bs" d prefix]
    by (auto simp: changes_container_def split: val.splits option.splits)
next
  case (VMap bps)
  then show ?thesis using assms set_encoded_paths [of prefix b d]
      push_tail_paths [of "prefix @ ''._JSMap''" "map_entries bps" _ "length bps" d prefix]
    by (auto simp: changes_container_def split: val.splits option.splits)
next
  case (VArr bs)
  show ?thesis
  proof (cases "isArray a")
    case True
    then show ?thesis using VArr assms set_encoded_paths [of prefix b d]
        push_tail_paths [of prefix bs _ "length bs" d prefix]
      by (auto simp: changes_container_def split: val.splits option.splits)
  next
    case False
    then have "\<exists>w. mapM encode bs = Inr w \<and> d = new_UpdateFilter\<lparr>d_set := [(prefix, VArr w)]\<rparr>"
      using VArr assms by (cases a) (auto simp: changes_container_def split: sum.splits)
    then show ?thesis by (auto simp: disjoint_opers_def all_paths_def new_UpdateFilter_def)
  qed
qed (use assms set_encoded_paths [of prefix b d] in \<open>auto simp: changes_container_def\<close>)

lemma record_is_VObj:
  assumes "b \<noteq> VUndefined" "\<not> EJSONCompatible b" "\<not> isArray b" "\<not> isSet b" "\<not> isMap b"
    "typeof b \<notin> {TFunction, TSymbol}"
  shows "\<exists>es. b = VObj es"
  using assms by (cases b) auto

lemma record_keys_good:
  assumes "field_names_ok a" "\<not> EJSONCompatible a"
  shows "\<forall>k \<in> set (Object_keys a). good_key k"
  using assms by (cases a) (auto simp: Object_keys_def list_all_iff)

lemma field_names_ok_entries: "field_names_ok a \<Longrightarrow> (k, v) \<in> set (Object_entries a) \<Longrightarrow> field_names_ok v"
  by (cases a) (auto simp: list_all_iff)

lemma field_names_ok_getprop: "field_names_ok a \<Longrightarrow> field_names_ok (getprop a k)"
proof (cases "map_of (Object_entries a) k")
  case None
  then show ?thesis by (simp add: getprop_def)
next
  case (Some v)
  assume "field_names_ok a"
  moreover have "(k, v) \<in> set (Object_entries a)" using Some by (rule map_of_SomeD)
  ultimately have "field_names_ok v" by (rule field_names_ok_entries)
  then show ?thesis using Some by (simp add: getprop_def)
qed

lemma merged_keys:
  "fst ` set (d_push (fold (\<lambda>ov d. assign_oper d ov) (parse c) diff))
     = fst ` set (d_push diff) \<union> (fst ` set (d_push c) - {''_id''})"
  "fst ` set (d_set (fold (\<lambda>ov d. assign_oper d ov) (parse c) diff))
     = fst ` set (d_set diff) \<union> (fst ` set (d_set c) - {''_id''})"
  "fst ` set (d_unset (fold (\<lambda>ov d. assign_oper d ov) (parse c) diff))
     = fst ` set (d_unset diff) \<union> (fst ` set (d_unset c) - {''_id''})"
  by (simp_all only: merge_fields keys_Object_assign keys_delete)

lemma disjoint_union_aux:
  "A1 \<inter> A2 = {} \<Longrightarrow> B1 \<inter> B2 = {} \<Longrightarrow> (A1 \<union> A2 \<union> A3) \<inter> (B1 \<union> B2 \<union> B3) = {} \<Longrightarrow>
   (A1 \<union> (B1 - X)) \<inter> (A2 \<union> (B2 - X)) = {}"
  "A1 \<inter> A3 = {} \<Longrightarrow> B1 \<inter> B3 = {} \<Longrightarrow> (A1 \<union> A2 \<union> A3) \<inter> (B1 \<union> B2 \<union> B3) = {} \<Longrightarrow>
   (A1 \<union> (B1 - X)) \<inter> (A3 \<union> (B3 - X)) = {}"
  "A2 \<inter> A3 = {} \<Longrightarrow> B2 \<inter> B3 = {} \<Longrightarrow> (A1 \<union> A2 \<union> A3) \<inter> (B1 \<union> B2 \<union> B3) = {} \<Longrightarrow>
   (A2 \<union> (B2 - X)) \<inter> (A3 \<union> (B3 - X)) = {}"
  by blast+

lemma subset_union_aux:
  "(A1 \<union> (B1 - X)) \<union> (A2 \<union> (B2 - X)) \<union> (A3 \<union> (B3 - X)) \<subseteq> (A1 \<union> A2 \<union> A3) \<union> (B1 \<union> B2 \<union> B3)"
  by blast

lemma merged_paths:
  "all_paths (fold (\<lambda>ov d. assign_oper d ov) (parse c) diff) \<subseteq> all_paths diff \<union> all_paths c"
  unfolding all_paths_def set_map merged_keys by (rule subset_union_aux)

lemma merged_disjoint:
  assumes "disjoint_opers diff" "disjoint_opers c" "all_paths diff \<inter> all_paths c = {}"
  shows "disjoint_opers (fold (\<lambda>ov d. assign_oper d ov) (parse c) diff)"
  using assms
  unfolding disjoint_opers_def all_paths_def set_map merged_keys
  by (intro conjI disjoint_union_aux; simp)

lemma changes_paths:
  "\<forall>d. changes prefix a b = Inr d \<longrightarrow> field_names_ok a \<longrightarrow> field_names_ok b \<longrightarrow> wellformed b \<longrightarrow>
      disjoint_opers d \<and> (prefix \<noteq> [] \<longrightarrow> (\<forall>p \<in> all_paths d. path_under prefix p))"
  "\<forall>K d. changes_loop prefix a es diff = Inr d \<longrightarrow> field_names_ok a \<longrightarrow>
      list_all (\<lambda>(k, v). good_key k \<and> field_names_ok v \<and> wellformed v) es \<longrightarrow>
      distinct (map fst es) \<longrightarrow> (\<forall>k \<in> K. good_key k) \<longrightarrow> K \<inter> set (map fst es) = {} \<longrightarrow>
      disjoint_opers diff \<longrightarrow> (\<forall>p \<in> all_paths diff. \<exists>k \<in> K. path_under (path prefix k) p) \<longrightarrow>
      disjoint_opers d \<and> (\<forall>p \<in> all_paths d. \<exists>k. good_key k \<and> path_under (path prefix k) p)"
proof (induction prefix a b and prefix a es diff rule: changes_changes_loop.induct)
  case (1 prefix a b)
  show ?case
  proof (intro allI impI)
    fix d
    assume d: "changes prefix a b = Inr d" and ok: "field_names_ok a" "field_names_ok b" "wellformed b"
    show "disjoint_opers d \<and> (prefix \<noteq> [] \<longrightarrow> (\<forall>p \<in> all_paths d. path_under prefix p))"
    proof (cases "b = VUndefined")
      case True
      then show ?thesis using d
        by (auto simp: changes.simps(1) disjoint_opers_def all_paths_def new_UpdateFilter_def
            split: if_splits)
    next
      case b: False
      show ?thesis
      proof (cases "EJSONCompatible a \<or> EJSONCompatible b \<or> isArray b \<or> isSet b \<or> isMap b
              \<or> typeof b = TBigInt")
        case True
        then have "d = new_UpdateFilter \<or> changes_container prefix a b = Inr d"
          using d b by (simp add: changes.simps(1) split: if_splits)
        then show ?thesis
        proof
          assume "d = new_UpdateFilter"
          then show ?thesis by (simp add: disjoint_opers_def all_paths_def new_UpdateFilter_def)
        next
          assume "changes_container prefix a b = Inr d"
          from changes_container_paths [OF this] show ?thesis by blast
        qed
      next
        case leaf: False
        show ?thesis
        proof (cases "typeof b \<in> {TFunction, TSymbol}")
          case True
          then have "d = new_UpdateFilter" using d b leaf by (simp add: changes.simps(1))
          then show ?thesis by (simp add: disjoint_opers_def all_paths_def new_UpdateFilter_def)
        next
          case fs: False
          show ?thesis
          proof (cases "typeof a \<noteq> typeof b")
            case True
            then have "set_encoded prefix b = Inr d"
              using d b leaf fs by (simp add: changes.simps(1) split: if_splits)
            then show ?thesis using set_encoded_paths by blast
          next
            case ty: False
            then have rec: "RecordLike a" "RecordLike b"
              and loop: "changes_loop prefix a (Object_entries b)
                  (unset_removed prefix (Object_keys a) (Object_keys b)) = Inr d"
              using d b leaf fs by (simp_all add: changes.simps(1) split: if_splits)
            from record_is_VObj [of b] b leaf fs obtain es where es: "b = VObj es" by auto
            let ?K = "set (Object_keys a) - set (Object_keys b)"
            let ?diff = "unset_removed prefix (Object_keys a) (Object_keys b)"
            have K: "\<forall>k \<in> ?K. good_key k" using record_keys_good [of a] ok(1) leaf by auto
            have ents: "list_all (\<lambda>(k, v). good_key k \<and> field_names_ok v \<and> wellformed v) (Object_entries b)"
              using ok(2,3) es by (auto simp: list_all_iff)
            have dist: "distinct (map fst (Object_entries b))" using ok(3) es by simp
            have inter: "?K \<inter> set (map fst (Object_entries b)) = {}"
              by (auto simp: Object_keys_def)
            have dj: "disjoint_opers ?diff"
              by (simp add: disjoint_opers_def unset_removed_fields)
            have "all_paths ?diff = path prefix ` ?K"
              by (simp add: all_paths_def unset_removed_fields)
            then have paths: "\<forall>p \<in> all_paths ?diff. \<exists>k \<in> ?K. path_under (path prefix k) p"
              by (auto intro: path_under_refl)
            have nn: "\<not> typeof a \<noteq> typeof b" "\<not> \<not> RecordLike a" "\<not> \<not> RecordLike b"
              using ty rec by simp_all
            note IH = "1.IH" [OF b leaf fs nn, rule_format, OF loop ok(1) ents dist K [rule_format] inter dj paths [rule_format]]
            then have res: "disjoint_opers d \<and>
                (\<forall>p \<in> all_paths d. \<exists>k. good_key k \<and> path_under (path prefix k) p)" .
            then show ?thesis using path_under_path_prefix by blast
          qed
        qed
      qed
    qed
  qed
next
  case (2 prefix a diff)
  show ?case by (simp del: all_simps) blast
next
  case (3 prefix a k v rest diff)
  show ?case
  proof (intro allI impI)
    fix K d
    assume d: "changes_loop prefix a ((k, v) # rest) diff = Inr d"
      and a: "field_names_ok a"
      and ents: "list_all (\<lambda>(k, v). good_key k \<and> field_names_ok v \<and> wellformed v) ((k, v) # rest)"
      and dist: "distinct (map fst ((k, v) # rest))"
      and K: "\<forall>k \<in> K. good_key k" and inter: "K \<inter> set (map fst ((k, v) # rest)) = {}"
      and dj: "disjoint_opers diff"
      and paths: "\<forall>p \<in> all_paths diff. \<exists>k \<in> K. path_under (path prefix k) p"
    from d obtain c where c: "changes (path prefix k) (getprop a k) v = Inr c"
      and rest: "changes_loop prefix a rest (fold (\<lambda>ov d. assign_oper d ov) (parse c) diff) = Inr d"
      by (auto split: sum.splits)
    have k: "good_key k" and v: "field_names_ok v" "wellformed v" using ents by auto
    have "path prefix k \<noteq> []" using k by (rule path_nonempty)
    note IH1 = "3.IH"(1) [rule_format, OF c field_names_ok_getprop [OF a] v]
    have cd: "disjoint_opers c" using IH1 by simp
    have cp: "\<forall>p \<in> all_paths c. path_under (path prefix k) p"
      using IH1 \<open>path prefix k \<noteq> []\<close> by simp
    let ?diff = "fold (\<lambda>ov d. assign_oper d ov) (parse c) diff"
    have kK: "k \<notin> K" using inter by auto
    have "all_paths diff \<inter> all_paths c = {}"
    proof (rule ccontr)
      assume "all_paths diff \<inter> all_paths c \<noteq> {}"
      then obtain p where p: "p \<in> all_paths diff" "p \<in> all_paths c" by auto
      then obtain k' where k': "k' \<in> K" "path_under (path prefix k') p" using paths by auto
      have "path_under (path prefix k) p" using cp p by auto
      then have "k' = k" using path_under_path_inj [of k' k prefix p] K k k' by auto
      then show False using kK k' by simp
    qed
    then have dj': "disjoint_opers ?diff" using merged_disjoint [OF dj cd] by simp
    have paths': "\<forall>p \<in> all_paths ?diff. \<exists>k' \<in> insert k K. path_under (path prefix k') p"
      using merged_paths [of c diff] paths cp by blast
    have r: "list_all (\<lambda>(k, v). good_key k \<and> field_names_ok v \<and> wellformed v) rest"
      "distinct (map fst rest)" "\<forall>k' \<in> insert k K. good_key k'"
      "insert k K \<inter> set (map fst rest) = {}"
      using ents dist K k inter by auto
    show "disjoint_opers d \<and> (\<forall>p \<in> all_paths d. \<exists>k. good_key k \<and> path_under (path prefix k) p)"
      by (rule "3.IH"(2) [OF c, rule_format, OF rest a r(1,2) r(3) [rule_format] r(4) dj' paths' [rule_format]])
  qed
qed

lemma parse_no_id: "(oper, m) \<in> set (parse d) \<Longrightarrow> ''_id'' \<notin> fst ` set m"
  using keys_delete [of "''_id''"] by (auto simp: parse_def split: if_splits)

text \<open>
  C4, as stated, fails on field names that contain a dot: the paths are dot-joined
  strings, so the removed field \<open>x.y\<close> of the document and the changed field \<open>y\<close> of its
  sub-document \<open>x\<close> are the same path, once under \<open>$unset\<close> and once under \<open>$set\<close>.
\<close>

theorem changeset_paths_counterexample:
  "changes [] (VObj [(''x.y'', VNum 1), (''x'', VObj [])]) (VObj [(''x'', VObj [(''y'', VNum 2)])])
     = Inr \<lparr>d_push = [], d_set = [(''x.y'', VNum 2)], d_unset = [(''x.y'', VStr [])]\<rparr> \<and>
   \<not> disjoint_opers \<lparr>d_push = [], d_set = [(''x.y'', VNum 2)], d_unset = [(''x.y'', VStr [])]\<rparr>"
  by code_simp

text \<open>
  C4 (amended): when every field name of the two inputs, through nested plain objects,
  is not empty and has no dot (and \<open>b\<close> is a value of the language), the filter that
  \<open>changes\<close> returns has no path under two operators; and for every filter, no operator
  of the rendered filter (\<open>parse\<close>) has the key \<open>_id\<close>.
\<close>

theorem changeset_paths_disjoint:
  assumes "changes prefix a b = Inr d"
    and "field_names_ok a" and "field_names_ok b" and "wellformed b"
  shows "disjoint_opers d \<and> (\<forall>(oper, m) \<in> set (parse d). ''_id'' \<notin> fst ` set m)"
  using changes_paths(1) [rule_format, OF assms] parse_no_id by blast

theorem changeset_paths_disjoint_witness:
  "changes []
     (VObj [(''_id'', VNum 1), (''email'', VStr ''a''), (''tags'', VSet [VNum 1, VNum 2]), (''old'', VNull)])
     (VObj [(''_id'', VNum 2), (''email'', VStr ''b''), (''tags'', VSet [VNum 1, VNum 2, VNum 3])])
     = Inr \<lparr>d_push = [(''tags._JSSet'', VObj [(''$each'', VArr [VNum 3]), (''$position'', VNum 2),
                                                (''$slice'', VNum 3)])],
            d_set = [(''email'', VStr ''b'')], d_unset = [(''old'', VStr [])]\<rparr> \<and>
   field_names_ok
     (VObj [(''_id'', VNum 1), (''email'', VStr ''a''), (''tags'', VSet [VNum 1, VNum 2]), (''old'', VNull)]) \<and>
   field_names_ok
     (VObj [(''_id'', VNum 2), (''email'', VStr ''b''), (''tags'', VSet [VNum 1, VNum 2, VNum 3])]) \<and>
   wellformed
     (VObj [(''_id'', VNum 2), (''email'', VStr ''b''), (''tags'', VSet [VNum 1, VNum 2, VNum 3])]) \<and>
   disjoint_opers \<lparr>d_push = [(''tags._JSSet'', VObj [(''$each'', VArr [VNum 3]), (''$position'', VNum 2),
                                                (''$slice'', VNum 3)])],
            d_set = [(''email'', VStr ''b'')], d_unset = [(''old'', VStr [])]\<rparr> \<and>
   parse \<lparr>d_push = [(''tags._JSSet'', VObj [(''$each'', VArr [VNum 3]), (''$position'', VNum 2),
                                                (''$slice'', VNum 3)])],
            d_set = [(''email'', VStr ''b'')], d_unset = [(''old'', VStr [])]\<rparr>
     = [(''$push'', [(''tags._JSSet'', VObj [(''$each'', VArr [VNum 3]), (''$position'', VNum 2),
                                                (''$slice'', VNum 3)])]),
        (''$set'', [(''email'', VStr ''b'')]), (''$unset'', [(''old'', VStr [])])]"
proof -
  let ?a = "VObj [(''_id'', VNum 1), (''email'', VStr ''a''), (''tags'', VSet [VNum 1, VNum 2]), (''old'', VNull)]"
  let ?b = "VObj [(''_id'', VNum 2), (''email'', VStr ''b''), (''tags'', VSet [VNum 1, VNum 2, VNum 3])]"
  let ?d = "\<lparr>d_push = [(''tags._JSSet'', VObj [(''$each'', VArr [VNum 3]), (''$position'', VNum 2),
                                                (''$slice'', VNum 3)])],
            d_set = [(''email'', VStr ''b'')], d_unset = [(''old'', VStr [])]\<rparr>"
  have c: "changes [] ?a ?b = Inr ?d" by code_simp
  have h: "field_names_ok ?a" "field_names_ok ?b" "wellformed ?b" by code_simp+
  have p: "parse ?d = [(''$push'', [(''tags._JSSet'', VObj [(''$each'', VArr [VNum 3]), (''$position'', VNum 2),
                                                (''$slice'', VNum 3)])]),
        (''$set'', [(''email'', VStr ''b'')]), (''$unset'', [(''old'', VStr [])])]" by code_simp
  show ?thesis using c h p changeset_paths_disjoint [OF c h] by blast
qed

section \<open>The diff-apply law\<close>

lemma map_of_Object_assign:
  "distinct (map fst vs) \<Longrightarrow> map_of (Object_assign t vs) = map_of t ++ map_of vs"
  unfolding Object_assign_def
proof (induction vs arbitrary: t)
  case Nil
  then show ?case by simp
next
  case (Cons e vs)
  obtain k v where e: "e = (k, v)" by (cases e)
  have k: "map_of vs k = None" using Cons.prems e by (simp add: map_of_eq_None_iff)
  have "map_of (fold (\<lambda>(k, v) obj. AList.update k v obj) vs (AList.update k v t))
          = map_of (AList.update k v t) ++ map_of vs"
    using Cons.IH [of "AList.update k v t"] Cons.prems by simp
  also have "\<dots> = map_of t ++ map_of ((k, v) # vs)"
    unfolding update_conv' map_of.simps fst_conv snd_conv
  proof (rule ext)
    fix a show "((map_of t)(k \<mapsto> v) ++ map_of vs) a = (map_of t ++ (map_of vs)(k \<mapsto> v)) a"
      using k by (cases "a = k") (simp_all add: map_add_def split: option.splits)
  qed
  finally show ?case unfolding e fold.simps o_apply case_prod_conv .
qed

lemma distinct_Object_assign:
  "distinct (map fst t) \<Longrightarrow> distinct (map fst (Object_assign t vs))"
  unfolding Object_assign_def
  by (induction vs arbitrary: t) (auto simp: distinct_update)

lemma distinct_opers_merge:
  "distinct_opers diff \<Longrightarrow> distinct_opers (fold (\<lambda>ov d. assign_oper d ov) (parse c) diff)"
  by (simp add: distinct_opers_def merge_fields distinct_Object_assign)

lemma distinct_unset_fold:
  "distinct_opers d \<Longrightarrow>
   distinct_opers (fold (\<lambda>k diff. if k \<in> set bKeys then diff
                   else diff\<lparr>d_unset := AList.update (path P k) (VStr []) (d_unset diff)\<rparr>) ks d)"
  by (induction ks arbitrary: d) (auto simp: distinct_opers_def distinct_update)

lemma distinct_unset_removed: "distinct_opers (unset_removed P aKeys bKeys)"
  unfolding unset_removed_def
  by (rule distinct_unset_fold) (simp add: distinct_opers_def new_UpdateFilter_def)

lemma distinct_container: "changes_container prefix a b = Inr d \<Longrightarrow> distinct_opers d"
  by (auto simp: changes_container_def set_encoded_def push_tail_def distinct_opers_def
      new_UpdateFilter_def split: val.splits option.splits sum.splits)

lemma changes_distinct:
  "\<forall>d. changes prefix a b = Inr d \<longrightarrow> distinct_opers d"
  "\<forall>d. changes_loop prefix a es diff = Inr d \<longrightarrow> distinct_opers diff \<longrightarrow> distinct_opers d"
proof (induction prefix a b and prefix a es diff rule: changes_changes_loop.induct)
  case (1 prefix a b)
  show ?case
  proof (intro allI impI)
    fix d assume d: "changes prefix a b = Inr d"
    show "distinct_opers d"
      using d 1 distinct_container [of prefix a b d] distinct_unset_removed
      by (auto simp: changes.simps(1) [of prefix a b] set_encoded_def distinct_opers_def
          new_UpdateFilter_def split: if_splits sum.splits)
  qed
next
  case (2 prefix a diff)
  then show ?case by simp
next
  case (3 prefix a k v rest diff)
  then show ?case by (auto split: sum.splits intro: distinct_opers_merge)
qed

lemma first_diff_props:
  "first_diff as bs i = Some j \<Longrightarrow>
   i \<le> j \<and> j < max (length as) (length bs) \<and> \<not> equal_deep (at as j) (at bs j) \<and>
   (\<forall>l. i \<le> l \<and> l < j \<longrightarrow> equal_deep (at as l) (at bs l))"
proof (induction as bs i rule: first_diff.induct)
  case (1 aEntries bEntries i)
  show ?case
  proof (cases "i < max (length aEntries) (length bEntries) \<and> equal_deep (at aEntries i) (at bEntries i)")
    case True
    then have "first_diff aEntries bEntries (Suc i) = Some j"
      using "1.prems" by (simp add: first_diff.simps [of aEntries bEntries i])
    from "1.IH" [OF _ _ this] True
    have ih: "Suc i \<le> j \<and> j < max (length aEntries) (length bEntries) \<and>
       \<not> equal_deep (at aEntries j) (at bEntries j) \<and>
       (\<forall>l. Suc i \<le> l \<and> l < j \<longrightarrow> equal_deep (at aEntries l) (at bEntries l))" by simp
    have "\<And>l. i \<le> l \<Longrightarrow> l < j \<Longrightarrow> equal_deep (at aEntries l) (at bEntries l)"
    proof -
      fix l assume "i \<le> l" "l < j"
      then consider "l = i" | "Suc i \<le> l" by linarith
      then show "equal_deep (at aEntries l) (at bEntries l)"
        using True ih \<open>l < j\<close> by cases auto
    qed
    then show ?thesis using ih by auto
  next
    case False
    then show ?thesis using "1.prems"
      by (auto simp: first_diff.simps [of aEntries bEntries i] split: if_splits)
  qed
qed

lemma equal_deep_undefined: "equal_deep VUndefined y \<longleftrightarrow> y = VUndefined"
  by (auto simp: equal_deep.simps)

lemma equal_deep_primitive:
  "equal_deep x y \<Longrightarrow> (primitive x \<longleftrightarrow> primitive y) \<and> (primitive x \<longrightarrow> x = y)"
  by (cases x; cases y; simp add: equal_deep.simps)

lemma equal_deep_filter_primitive:
  "list_all2 equal_deep xs ys \<Longrightarrow> filter primitive xs = filter primitive ys"
  by (induction rule: list_all2_induct) (auto dest: equal_deep_primitive)

lemma mapM_iff: "mapM f xs = Inr ys \<longleftrightarrow> list_all2 (\<lambda>x y. f x = Inr y) xs ys"
proof (induction xs arbitrary: ys)
  case Nil
  then show ?case by auto
next
  case (Cons x xs)
  show ?case
  proof (cases ys)
    case Nil
    then show ?thesis by (auto split: sum.splits)
  next
    case (Cons y ys')
    then show ?thesis using Cons.IH [of ys'] by (auto split: sum.splits)
  qed
qed

lemma splice_push_payload:
  "splice_push (VObj [(''$each'', VArr each), (''$position'', VNum (int i)), (''$slice'', VNum (int n))]) xs
     = take n (take i xs @ each @ drop i xs)"
  by (simp add: splice_push_def getprop_def)

lemma push_result:
  assumes fd: "first_diff as bs 0 = Some i"
    and nb: "\<forall>b \<in> set bs. b \<noteq> VUndefined"
    and wb: "list_all wellformed bs"
    and da: "list_all2 (\<lambda>w v. decode w = Inr v) was as"
    and db: "list_all2 (\<lambda>w v. decode w = Inr v) each (drop i bs)"
  shows "\<exists>res. list_all2 (\<lambda>w v. decode w = Inr v) (take (length bs) (take i was @ each @ drop i was)) res
           \<and> list_all2 equal_deep res bs"
proof -
  from first_diff_props [OF fd]
  have lt: "i < max (length as) (length bs)"
    and eq: "\<And>l. l < i \<Longrightarrow> equal_deep (at as l) (at bs l)" by auto
  have ia: "i \<le> length as"
  proof (rule ccontr)
    assume "\<not> i \<le> length as"
    then have l: "length as < i" by simp
    then have "length as < length bs" using lt by simp
    then have "at bs (length as) \<in> set bs" by (simp add: at_def)
    then have "at bs (length as) \<noteq> VUndefined" using nb by blast
    moreover have "equal_deep (at as (length as)) (at bs (length as))" using eq [OF l] .
    then have "at bs (length as) = VUndefined" by (simp add: at_def equal_deep_undefined)
    ultimately show False by simp
  qed
  have lw: "length was = length as" using da by (rule list_all2_lengthD)
  have le: "length each = length bs - i" using list_all2_lengthD [OF db] by simp
  define m where "m = min i (length bs)"
  have W: "take (length bs) (take i was @ each @ drop i was) = take m was @ each"
  proof (cases "i \<le> length bs")
    case True
    then show ?thesis using ia lw le by (simp add: m_def min_def)
  next
    case False
    then have "each = []" using le by simp
    then show ?thesis using False by (simp add: m_def min_def)
  qed
  have dr: "drop i bs = drop m bs" by (cases "i \<le> length bs") (simp_all add: m_def min_def)
  have 1: "list_all2 (\<lambda>w v. decode w = Inr v) (take m was @ each) (take m as @ drop i bs)"
    using list_all2_takeI [OF da] db by (rule list_all2_appendI)
  have "list_all2 equal_deep (take m as) (take m bs)"
  proof (rule list_all2_all_nthI)
    show "length (take m as) = length (take m bs)" using ia by (simp add: m_def)
  next
    fix l assume "l < length (take m as)"
    then have l: "l < m" "l < length as" by simp_all
    then have "l < i" "l < length bs" by (simp_all add: m_def)
    then show "equal_deep (take m as ! l) (take m bs ! l)" using eq [of l] l by (simp add: at_def)
  qed
  moreover have "list_all2 equal_deep (drop m bs) (drop m bs)"
    using wb by (auto simp: list_all2_same list_all_iff intro: equal_deep_refl dest: in_set_dropD)
  ultimately have "list_all2 equal_deep (take m as @ drop m bs) (take m bs @ drop m bs)"
    by (rule list_all2_appendI)
  then have 2: "list_all2 equal_deep (take m as @ drop i bs) bs" using dr by simp
  show ?thesis using 1 2 W by auto
qed

lemma decode_fields:
  "no_tag_key es \<Longrightarrow> list_all2 (\<lambda>(k, w) (k', v). k' = k \<and> decode w = Inr v) es vs \<Longrightarrow>
   decode_entries es acc = Inr (fromEntries (acc @ vs))"
proof (induction es arbitrary: acc vs)
  case Nil
  then show ?case by simp
next
  case (Cons e es)
  obtain k w where e: "e = (k, w)" by (cases e)
  from Cons.prems(2) e obtain v vs' where vs: "vs = (k, v) # vs'" "decode w = Inr v"
    "list_all2 (\<lambda>(k, w) (k', v). k' = k \<and> decode w = Inr v) es vs'"
    by (auto simp: list_all2_Cons1)
  have nt: "k \<noteq> ''_JSSet''" "k \<noteq> ''_JSMap''" "no_tag_key es"
    using Cons.prems(1) e by (simp_all add: no_tag_key_def)
  have "EJSONCompatible w \<Longrightarrow> v = w" using vs(2) by (simp add: decode_EJSON)
  then show ?case using Cons.IH [OF nt(3) vs(3), of "acc @ [(k, v)]"] nt vs e by auto
qed

lemma child_key_path: "child_key P q = Some k \<Longrightarrow> q = path P k \<and> good_key k"
  by (auto simp: child_key_def path_def split: if_splits)
     (metis append_take_drop_id append_Cons append_Nil append_assoc)

lemma child_key_of_path: "good_key k \<Longrightarrow> child_key P (path P k) = Some k"
  by (auto simp: child_key_def path_def good_key_def)

lemma scope_refl [simp]: "scope P P"
  by (simp add: scope_def)

lemma scope_path [simp]: "scope P (path P k)"
  by (simp add: scope_def path_def path_under_def)

lemma scope_child: "scope (path P k) p \<Longrightarrow> scope P p"
  by (cases "P = []") (auto simp: scope_def path_def intro: path_under_path_prefix [unfolded path_def])

lemma op_at_none: "op_at U p = (None, None, None) \<longleftrightarrow> p \<notin> all_paths U"
  by (auto simp: op_at_def all_paths_def map_of_eq_None_iff)

lemma new_fields_none:
  assumes "\<forall>q. scope P q \<longrightarrow> map_of (d_set U) q = None"
  shows "new_fields U P es = []"
proof -
  have "\<And>q v. (q, v) \<in> set (d_set U) \<Longrightarrow> child_key P q = None"
  proof (rule ccontr)
    fix q v assume qv: "(q, v) \<in> set (d_set U)" and "child_key P q \<noteq> None"
    then obtain k where "child_key P q = Some k" by auto
    then have "q = path P k" using child_key_path by blast
    then have "map_of (d_set U) q = None" using assms by simp
    then show False using qv by (force simp: map_of_eq_None_iff)
  qed
  then show ?thesis
    by (auto simp: new_fields_def new_field_def List.map_filter_def filter_empty_conv)
qed

lemma apply_unchanged:
  "(\<forall>q. scope p q \<longrightarrow> op_at U q = (None, None, None)) \<longrightarrow> apply_val U p old = old"
  "(\<forall>q. scope p q \<longrightarrow> op_at U q = (None, None, None)) \<longrightarrow> apply_fields U p es = es"
proof (induction U p old and U p es rule: apply_val_apply_fields.induct)
  case (1 U p old)
  show ?case
  proof
    assume h: "\<forall>q. scope p q \<longrightarrow> op_at U q = (None, None, None)"
    then have "op_at U p = (None, None, None)" by simp
    then have n: "map_of (d_unset U) p = None" "map_of (d_set U) p = None" "map_of (d_push U) p = None"
      by (simp_all add: op_at_def)
    show "apply_val U p old = old"
    proof (cases old)
      case None
      then show ?thesis using n by (simp add: apply_val.simps)
    next
      case (Some w)
      show ?thesis
      proof (cases w)
        case (VObj es)
        have "apply_fields U p es = es" using "1.IH" [OF n Some VObj] h by simp
        moreover have "new_fields U p es = []"
          using h by (intro new_fields_none) (simp add: op_at_def)
        ultimately show ?thesis using n Some VObj by (simp add: apply_val.simps)
      qed (use n Some in \<open>simp_all add: apply_val.simps\<close>)
    qed
  qed
next
  case (2 U p)
  then show ?case by simp
next
  case (3 U p k w es)
  show ?case
  proof
    assume h: "\<forall>q. scope p q \<longrightarrow> op_at U q = (None, None, None)"
    then have "\<forall>q. scope (path p k) q \<longrightarrow> op_at U q = (None, None, None)"
      using scope_child by blast
    then have a: "good_key k \<Longrightarrow> apply_val U (path p k) (Some w) = Some w" using "3.IH"(1) by simp
    show "apply_fields U p ((k, w) # es) = (k, w) # es"
    proof (cases "good_key k")
      case True
      then show ?thesis using a "3.IH"(3) [OF True a [OF True]] h by simp
    next
      case False
      then show ?thesis using "3.IH"(4) h by simp
    qed
  qed
qed

lemma agrees_at:
  assumes "agrees P U d" "scope P p"
  shows "map_of (d_push U) p = map_of (d_push d) p"
    and "map_of (d_set U) p = map_of (d_set d) p"
    and "map_of (d_unset U) p = map_of (d_unset d) p"
  using assms by (auto simp: agrees_def op_at_def)

lemma set_result:
  assumes "set_encoded prefix b = Inr d" "agrees prefix U d"
    and "wellformed b" "supported b" "tag_free b"
  shows "result_ok (apply_val U prefix old) b"
proof -
  from roundtrips_all [OF assms(3-5)] obtain w where w: "encode b = Inr w" "decode w = Inr b"
    by (auto simp: roundtrips_def)
  then have d: "d = new_UpdateFilter\<lparr>d_set := [(prefix, w)]\<rparr>"
    using assms(1) by (simp add: set_encoded_def)
  have "map_of (d_unset U) prefix = None" "map_of (d_set U) prefix = Some w"
    using agrees_at [OF assms(2), of prefix] d by (simp_all add: new_UpdateFilter_def)
  then have "apply_val U prefix old = Some w" by (simp add: apply_val.simps)
  then show ?thesis using w equal_deep_refl [OF assms(3)] by (simp add: result_ok_def)
qed

lemma set_array_encoded:
  "(case mapM encode bs of Inl e \<Rightarrow> Inl e | Inr w \<Rightarrow> Inr (new_UpdateFilter\<lparr>d_set := [(prefix, VArr w)]\<rparr>))
     = set_encoded prefix (VArr bs)"
  by (simp add: set_encoded_def encode_VArr split: sum.splits)

lemma roundtrips_list:
  assumes "list_all wellformed xs" "list_all supported xs" "list_all tag_free xs"
  shows "\<exists>ws. mapM encode xs = Inr ws \<and> list_all2 (\<lambda>w v. decode w = Inr v) ws xs"
proof -
  have "\<forall>x \<in> set xs. roundtrips x" using assms by (auto simp: list_all_iff intro: roundtrips_all)
  from mapM_roundtrip [OF this] show ?thesis by (auto simp: mapM_iff)
qed

lemma push_applied:
  assumes d: "push_tail key bs i (length bs) = Inr d"
    and fd: "first_diff as bs 0 = Some i"
    and ag: "map_of (d_push U) key = map_of (d_push d) key"
      "map_of (d_set U) key = map_of (d_set d) key" "map_of (d_unset U) key = map_of (d_unset d) key"
    and a: "list_all wellformed as" "list_all supported as" "list_all tag_free as"
    and b: "list_all wellformed bs" "list_all supported bs" "list_all tag_free bs"
    and was: "mapM encode as = Inr was"
  shows "\<exists>W res. apply_val U key (Some (VArr was)) = Some (VArr W) \<and> mapM decode W = Inr res
            \<and> list_all2 equal_deep res bs"
proof -
  from d obtain each where each: "mapM encode (drop i bs) = Inr each"
    and dd: "d = new_UpdateFilter\<lparr>d_push :=
            [(key, VObj [(''$each'', VArr each), (''$position'', VNum (int i)),
                         (''$slice'', VNum (int (length bs)))])]\<rparr>"
    by (auto simp: push_tail_def split: sum.splits)
  have "list_all wellformed (drop i bs)" "list_all supported (drop i bs)" "list_all tag_free (drop i bs)"
    using b by (auto simp: list_all_iff dest: in_set_dropD)
  from roundtrips_list [OF this] each
  have db: "list_all2 (\<lambda>w v. decode w = Inr v) each (drop i bs)" by simp
  from roundtrips_list [OF a] was
  have da: "list_all2 (\<lambda>w v. decode w = Inr v) was as" by simp
  have nb: "\<forall>b \<in> set bs. b \<noteq> VUndefined" using b(2) by (auto simp: list_all_iff)
  from push_result [OF fd nb b(1) da db] obtain res where
    res: "list_all2 (\<lambda>w v. decode w = Inr v) (take (length bs) (take i was @ each @ drop i was)) res"
      "list_all2 equal_deep res bs" by blast
  have "apply_val U key (Some (VArr was))
          = Some (VArr (take (length bs) (take i was @ each @ drop i was)))"
    using ag dd by (simp add: apply_val.simps new_UpdateFilter_def splice_push_payload)
  then show ?thesis using res by (auto simp: mapM_iff)
qed

lemma wrapper_applied:
  assumes p: "prefix \<noteq> []" and ag: "agrees prefix U d"
    and d: "d_set d = []" "d_unset d = []" "map_of (d_push d) prefix = None"
    and inner: "apply_val U (prefix @ CHR ''.'' # tag) (Some w) = Some w'" and tag: "good_key tag"
  shows "apply_val U prefix (Some (VObj [(tag, w)])) = Some (VObj [(tag, w')])"
proof -
  have n: "map_of (d_unset U) prefix = None" "map_of (d_set U) prefix = None"
    "map_of (d_push U) prefix = None"
    using agrees_at [OF ag, of prefix] d by simp_all
  have "\<forall>q. scope prefix q \<longrightarrow> map_of (d_set U) q = None"
    using agrees_at(2) [OF ag] d by simp
  then have "new_fields U prefix [(tag, w)] = []" by (rule new_fields_none)
  moreover have "path prefix tag = prefix @ CHR ''.'' # tag" using p by (simp add: path_def)
  ultimately show ?thesis using n inner tag by (simp add: apply_val.simps)
qed

lemma map_entries_equal:
  "list_all2 equal_deep res (map_entries bps) \<Longrightarrow>
   \<exists>ps'. res = map_entries ps' \<and>
         list_all2 (\<lambda>(k', v') (k, v). equal_deep k' k \<and> equal_deep v' v) ps' bps"
proof (induction bps arbitrary: res)
  case Nil
  then show ?case by (simp add: map_entries_def)
next
  case (Cons e bps)
  obtain k v where e: "e = (k, v)" by (cases e)
  from Cons.prems e obtain x res' where res: "res = x # res'" "equal_deep x (VArr [k, v])"
    "list_all2 equal_deep res' (map_entries bps)"
    by (auto simp: map_entries_def list_all2_Cons2)
  from res(2) obtain k' v' where x: "x = VArr [k', v']" "equal_deep k' k" "equal_deep v' v"
    by (cases x) (auto simp: equal_deep.simps [of _ "VArr [k, v]"] list_all2_Cons2)
  from Cons.IH [OF res(3)] obtain ps' where ps': "res' = map_entries ps'"
    "list_all2 (\<lambda>(k', v') (k, v). equal_deep k' k \<and> equal_deep v' v) ps' bps" by blast
  have "res = map_entries ((k', v') # ps')" using res(1) x(1) ps'(1) by (simp add: map_entries_def)
  moreover have "list_all2 (\<lambda>(k', v') (k, v). equal_deep k' k \<and> equal_deep v' v) ((k', v') # ps') (e # bps)"
    using x ps'(2) e by simp
  ultimately show ?case by blast
qed

lemma container_result:
  assumes c: "changes_container prefix a b = Inr d" and p: "prefix \<noteq> []"
    and a: "a = VUndefined \<or> (wellformed a \<and> supported a \<and> tag_free a)"
    and b: "wellformed b" "supported b" "tag_free b"
    and st: "stored a old" and ag: "agrees prefix U d"
  shows "result_ok (apply_val U prefix old) b"
proof -
  note setr = set_result [OF _ ag b, of old]
  have plain: "set_encoded prefix b = Inr d" if "\<not> isSet b" "\<not> isMap b" "\<not> isArray b"
    using c that by (cases b) (auto simp: changes_container_def)
  consider (set) "isSet b" | (map) "isMap b" | (arr) "isArray b"
    | (other) "\<not> isSet b" "\<not> isMap b" "\<not> isArray b" by blast
  then show ?thesis
  proof cases
    case set
    then obtain bs where VSet: "b = VSet bs" by (cases b) auto
    show ?thesis
    proof (cases "\<exists>as i. a = VSet as \<and> first_diff as bs 0 = Some i")
      case False
      then have "set_encoded prefix b = Inr d" using c VSet
        by (auto simp: changes_container_def split: val.splits option.splits)
      then show ?thesis by (rule setr)
    next
      case True
      then obtain as i where as: "a = VSet as" and fd: "first_diff as bs 0 = Some i" by blast
      let ?key = "prefix @ ''._JSSet''"
      have d: "push_tail ?key bs i (length bs) = Inr d"
        using c VSet as fd by (simp add: changes_container_def)
      have A: "list_all wellformed as" "list_all supported as" "list_all tag_free as"
        using a as by simp_all
      have B: "list_all wellformed bs" "list_all supported bs" "list_all tag_free bs"
        using b VSet by simp_all
      from st as obtain was where was: "mapM encode as = Inr was"
        and old: "old = Some (VObj [(''_JSSet'', VArr was)])"
        by (auto simp: stored_def encode_VSet split: sum.splits)
      have sc: "scope prefix ?key" by (simp add: scope_def)
      from push_applied [OF d fd agrees_at [OF ag sc] A B was] obtain W res where
        W: "apply_val U ?key (Some (VArr was)) = Some (VArr W)" "mapM decode W = Inr res"
          "list_all2 equal_deep res bs" by blast
      have dd: "d_set d = []" "d_unset d = []" "map_of (d_push d) prefix = None"
        using d by (auto simp: push_tail_def new_UpdateFilter_def split: sum.splits)
      have W': "apply_val U prefix (Some (VObj [(''_JSSet'', VArr was)])) = Some (VObj [(''_JSSet'', VArr W)])"
        using wrapper_applied [OF p ag dd, of "''_JSSet''" "VArr was" "VArr W"] W(1)
        by (simp add: good_key_def)
      have "filter primitive res = filter primitive bs"
        using W(3) by (rule equal_deep_filter_primitive)
      then have "distinct (filter primitive res)" using b(1) VSet by simp
      then have "newSet res = VSet res" by (rule newSet_distinct)
      then have "decode (VObj [(''_JSSet'', VArr W)]) = Inr (VSet res)"
        using W(2) by (simp add: decode_VObj)
      moreover have "equal_deep (VSet res) (VSet bs)"
        using match_all_list_all2 [OF W(3)] by (simp add: equal_deep.simps)
      ultimately show ?thesis using W' old VSet by (simp add: result_ok_def)
    qed
  next
    case map
    then obtain bps where VMap: "b = VMap bps" by (cases b) auto
    show ?thesis
    proof (cases "\<exists>aps i. a = VMap aps \<and> first_diff (map_entries aps) (map_entries bps) 0 = Some i")
      case False
      then have "set_encoded prefix b = Inr d" using c VMap
        by (auto simp: changes_container_def split: val.splits option.splits)
      then show ?thesis by (rule setr)
    next
      case True
      then obtain aps i where as: "a = VMap aps"
        and fd: "first_diff (map_entries aps) (map_entries bps) 0 = Some i" by blast
      let ?key = "prefix @ ''._JSMap''"
      have d: "push_tail ?key (map_entries bps) i (length (map_entries bps)) = Inr d"
        using c VMap as fd by (simp add: changes_container_def map_entries_def)
      have A: "list_all wellformed (map_entries aps)" "list_all supported (map_entries aps)"
        "list_all tag_free (map_entries aps)"
        using a as by (auto simp: map_entries_def list_all_iff)
      have B: "list_all wellformed (map_entries bps)" "list_all supported (map_entries bps)"
        "list_all tag_free (map_entries bps)"
        using b VMap by (auto simp: map_entries_def list_all_iff)
      from st as obtain was where was0: "mapM (\<lambda>(k, v).
             case encode k of
               Inl e \<Rightarrow> Inl e
             | Inr ek \<Rightarrow> (case encode v of Inl e \<Rightarrow> Inl e | Inr ev \<Rightarrow> Inr (VArr [ek, ev]))) aps = Inr was"
        and old: "old = Some (VObj [(''_JSMap'', VArr was)])"
        by (auto simp: stored_def encode_VMap split: sum.splits)
      have "mapM encode (map_entries aps) = mapM (\<lambda>(k, v).
             case encode k of
               Inl e \<Rightarrow> Inl e
             | Inr ek \<Rightarrow> (case encode v of Inl e \<Rightarrow> Inl e | Inr ev \<Rightarrow> Inr (VArr [ek, ev]))) aps"
        by (induction aps) (auto simp: map_entries_def encode_VArr split: sum.splits)
      then have was: "mapM encode (map_entries aps) = Inr was" using was0 by simp
      have sc: "scope prefix ?key" by (simp add: scope_def)
      from push_applied [OF d fd agrees_at [OF ag sc] A B was] obtain W res where
        W: "apply_val U ?key (Some (VArr was)) = Some (VArr W)" "mapM decode W = Inr res"
          "list_all2 equal_deep res (map_entries bps)" by blast
      have dd: "d_set d = []" "d_unset d = []" "map_of (d_push d) prefix = None"
        using d by (auto simp: push_tail_def new_UpdateFilter_def split: sum.splits)
      have W': "apply_val U prefix (Some (VObj [(''_JSMap'', VArr was)])) = Some (VObj [(''_JSMap'', VArr W)])"
        using wrapper_applied [OF p ag dd, of "''_JSMap''" "VArr was" "VArr W"] W(1)
        by (simp add: good_key_def)
      from map_entries_equal [OF W(3)] obtain ps' where ps': "res = map_entries ps'"
        "list_all2 (\<lambda>(k', v') (k, v). equal_deep k' k \<and> equal_deep v' v) ps' bps" by blast
      have "list_all2 equal_deep (map fst ps') (map fst bps)"
        using ps'(2) by (induction rule: list_all2_induct) auto
      then have "filter primitive (map fst ps') = filter primitive (map fst bps)"
        by (rule equal_deep_filter_primitive)
      then have "distinct (filter primitive (map fst ps'))" using b(1) VMap by simp
      then have "newMap res = Inr (VMap ps')" unfolding ps'(1) by (rule newMap_distinct)
      then have "decode (VObj [(''_JSMap'', VArr W)]) = Inr (VMap ps')"
        using W(2) by (simp add: decode_VObj)
      moreover have "equal_deep (VMap ps') (VMap bps)"
        using match_all_list_all2 [OF ps'(2)] by (simp add: equal_deep.simps)
      ultimately show ?thesis using W' old VMap by (simp add: result_ok_def)
    qed
  next
    case arr
    then obtain bs where VArr: "b = VArr bs" by (cases b) auto
    show ?thesis
    proof (cases "\<exists>as i. a = VArr as \<and> first_diff as bs 0 = Some i")
      case False
      then have "set_encoded prefix b = Inr d" using c VArr set_array_encoded [of prefix bs]
        by (auto simp: changes_container_def split: val.splits option.splits)
      then show ?thesis by (rule setr)
    next
      case True
      then obtain as i where as: "a = VArr as" and fd: "first_diff as bs 0 = Some i" by blast
      have d: "push_tail prefix bs i (length bs) = Inr d"
        using c VArr as fd by (simp add: changes_container_def)
      have A: "list_all wellformed as" "list_all supported as" "list_all tag_free as"
        using a as by simp_all
      have B: "list_all wellformed bs" "list_all supported bs" "list_all tag_free bs"
        using b VArr by simp_all
      from st as obtain was where was: "mapM encode as = Inr was"
        and old: "old = Some (VArr was)"
        by (auto simp: stored_def encode_VArr split: sum.splits)
      from push_applied [OF d fd agrees_at [OF ag scope_refl] A B was] obtain W res where
        W: "apply_val U prefix (Some (VArr was)) = Some (VArr W)" "mapM decode W = Inr res"
          "list_all2 equal_deep res bs" by blast
      have "decode (VArr W) = Inr (VArr res)" using W(2) by (simp add: decode_VArr)
      moreover have "equal_deep (VArr res) (VArr bs)" using W(3) by (simp add: equal_deep.simps)
      ultimately show ?thesis using W(1) old VArr by (simp add: result_ok_def)
    qed
  next
    case other
    then show ?thesis using setr plain by blast
  qed
qed

lemma map_of_merged:
  assumes "distinct (map fst m)"
  shows "map_of (Object_assign t (AList.delete ''_id'' m)) p =
           (if p = ''_id'' then map_of t p
            else (case map_of m p of None \<Rightarrow> map_of t p | Some x \<Rightarrow> Some x))"
proof -
  have "distinct (map fst (AList.delete ''_id'' m))" using assms by (rule distinct_delete)
  then show ?thesis
    by (simp add: map_of_Object_assign map_add_def delete_conv')
qed

lemma op_at_merged:
  assumes "distinct_opers c"
  shows "op_at (fold (\<lambda>ov d. assign_oper d ov) (parse c) diff) p =
           (if p = ''_id'' then op_at diff p
            else (case map_of (d_push c) p of None \<Rightarrow> map_of (d_push diff) p | Some x \<Rightarrow> Some x,
                  case map_of (d_set c) p of None \<Rightarrow> map_of (d_set diff) p | Some x \<Rightarrow> Some x,
                  case map_of (d_unset c) p of None \<Rightarrow> map_of (d_unset diff) p | Some x \<Rightarrow> Some x))"
  using assms by (simp add: op_at_def merge_fields map_of_merged distinct_opers_def)

lemma merged_outside:
  assumes "distinct_opers c" "p \<notin> all_paths c"
  shows "op_at (fold (\<lambda>ov d. assign_oper d ov) (parse c) diff) p = op_at diff p"
proof -
  have "op_at c p = (None, None, None)" using assms(2) by (simp add: op_at_none)
  then show ?thesis using op_at_merged [OF assms(1), of diff p] by (simp add: op_at_def)
qed

lemma merged_inside:
  assumes "distinct_opers c" "op_at diff p = (None, None, None)"
    and "p = ''_id'' \<longrightarrow> op_at c p = (None, None, None)"
  shows "op_at (fold (\<lambda>ov d. assign_oper d ov) (parse c) diff) p = op_at c p"
  using op_at_merged [OF assms(1), of diff p] assms(2,3)
  by (auto simp: op_at_def split: option.splits)

lemma not_under_self: "good_key k \<Longrightarrow> \<not> path_under (path P k) P"
  by (auto simp: path_under_iff path_def good_key_def)

lemma id_under:
  assumes "path_under (path P k) ''_id''" "good_key k"
  shows "P = [] \<and> k = ''_id''"
proof -
  from assms(1) obtain s where s: "''_id'' = path P k @ s" "s = [] \<or> hd s = CHR ''.''"
    unfolding path_under_iff by blast
  have nd: "CHR ''.'' \<notin> set ''_id''" by simp
  have P: "P = []"
  proof (rule ccontr)
    assume "P \<noteq> []"
    then have "CHR ''.'' \<in> set (path P k @ s)" by (simp add: path_def)
    then show False using nd s(1) by simp
  qed
  have "s = []"
  proof (rule ccontr)
    assume "s \<noteq> []"
    then have "CHR ''.'' \<in> set s" using s(2) by (cases s) auto
    then have "CHR ''.'' \<in> set (path P k @ s)" by simp
    then show False using nd s(1) by simp
  qed
  then show ?thesis using s(1) P by (simp add: path_def)
qed

lemma supported_defined: "supported v \<Longrightarrow> defined_fields v"
  by (induction v) (auto simp: list_all_iff)

lemma document_entry:
  assumes "document (VObj es)" "(k, v) \<in> set es"
  shows "document v" "good_key k"
  using assms by (auto simp: document_def list_all_iff no_tag_key_def)

lemma document_getprop: "document a \<Longrightarrow> getprop a k = VUndefined \<or> document (getprop a k)"
proof (cases "map_of (Object_entries a) k")
  case None
  then show ?thesis by (simp add: getprop_def)
next
  case (Some v)
  assume a: "document a"
  have kv: "(k, v) \<in> set (Object_entries a)" using Some by (rule map_of_SomeD)
  have "document v"
  proof (cases a)
    case (VObj es)
    then show ?thesis using a kv document_entry(1) by simp
  qed (use a kv in \<open>simp_all add: document_def\<close>)
  then show ?thesis using Some by (simp add: getprop_def)
qed

lemma unset_removed_op_at:
  "op_at (unset_removed P aKeys bKeys) p = (None, None, None)
     \<longleftrightarrow> p \<notin> path P ` (set aKeys - set bKeys)"
  by (simp add: op_at_none all_paths_def unset_removed_fields)

lemma result_ok_iff:
  "result_ok r b \<longleftrightarrow> (\<exists>w v'. r = Some w \<and> decode w = Inr v' \<and> equal_deep v' b)"
  by (auto simp: result_ok_def split: option.splits sum.splits)

lemma fields_applied:
  assumes "\<forall>k w. (k, w) \<in> set wes \<longrightarrow> good_key k \<and>
     ((k \<notin> fst ` set bes \<and> apply_val U (path P k) (Some w) = None) \<or>
      (\<exists>v. (k, v) \<in> set bes \<and> result_ok (apply_val U (path P k) (Some w)) v))"
  shows "\<exists>vs. list_all2 (\<lambda>(k, w) (k', v). k' = k \<and> decode w = Inr v) (apply_fields U P wes) vs \<and>
      map fst (apply_fields U P wes) = filter (\<lambda>k. k \<in> fst ` set bes) (map fst wes) \<and>
      (\<forall>k v'. (k, v') \<in> set vs \<longrightarrow> (\<exists>v. (k, v) \<in> set bes \<and> equal_deep v' v))"
  using assms
proof (induction wes)
  case Nil
  then show ?case by simp
next
  case (Cons e wes)
  obtain k w where e: "e = (k, w)" by (cases e)
  have "\<forall>k w. (k, w) \<in> set wes \<longrightarrow> good_key k \<and>
     ((k \<notin> fst ` set bes \<and> apply_val U (path P k) (Some w) = None) \<or>
      (\<exists>v. (k, v) \<in> set bes \<and> result_ok (apply_val U (path P k) (Some w)) v))"
    using Cons.prems by simp
  from Cons.IH [OF this] obtain vs where vs:
    "list_all2 (\<lambda>(k, w) (k', v). k' = k \<and> decode w = Inr v) (apply_fields U P wes) vs"
    "map fst (apply_fields U P wes) = filter (\<lambda>k. k \<in> fst ` set bes) (map fst wes)"
    "\<forall>k v'. (k, v') \<in> set vs \<longrightarrow> (\<exists>v. (k, v) \<in> set bes \<and> equal_deep v' v)"
    by blast
  have gk: "good_key k" using Cons.prems [rule_format, of k w] e by simp
  have "(k \<notin> fst ` set bes \<and> apply_val U (path P k) (Some w) = None) \<or>
      (\<exists>v. (k, v) \<in> set bes \<and> result_ok (apply_val U (path P k) (Some w)) v)"
    using Cons.prems [rule_format, of k w] e by simp
  then show ?case
  proof (elim disjE conjE exE)
    assume gone: "k \<notin> fst ` set bes" "apply_val U (path P k) (Some w) = None"
    have "apply_fields U P (e # wes) = apply_fields U P wes" using gone(2) e gk by simp
    moreover have "filter (\<lambda>k. k \<in> fst ` set bes) (map fst (e # wes))
        = filter (\<lambda>k. k \<in> fst ` set bes) (map fst wes)" using gone(1) e by simp
    ultimately show ?thesis using vs by (simp only:) blast
  next
    fix v assume kept: "(k, v) \<in> set bes" "result_ok (apply_val U (path P k) (Some w)) v"
    from kept(2) obtain w' v' where w': "apply_val U (path P k) (Some w) = Some w'"
      "decode w' = Inr v'" "equal_deep v' v" by (auto simp: result_ok_iff)
    have kb: "k \<in> fst ` set bes" using kept(1) by force
    have 1: "apply_fields U P (e # wes) = (k, w') # apply_fields U P wes" using w'(1) e gk by simp
    have 2: "filter (\<lambda>k. k \<in> fst ` set bes) (map fst (e # wes))
        = k # filter (\<lambda>k. k \<in> fst ` set bes) (map fst wes)" using kb e by simp
    have 3: "list_all2 (\<lambda>(k, w) (k', v). k' = k \<and> decode w = Inr v)
        ((k, w') # apply_fields U P wes) ((k, v') # vs)" using vs(1) w'(2) by simp
    have 4: "\<forall>k' v''. (k', v'') \<in> set ((k, v') # vs) \<longrightarrow> (\<exists>v. (k', v) \<in> set bes \<and> equal_deep v'' v)"
      using vs(3) kept(1) w'(3) by auto
    show ?thesis unfolding 1 2 using 3 4 vs(2) by (intro exI [of _ "(k, v') # vs"]) simp
  qed
qed

lemma new_applied_list:
  assumes "distinct (map fst L)"
    and "\<forall>q w' k. (q, w') \<in> set L \<longrightarrow> child_key P q = Some k \<longrightarrow> k \<notin> set (map fst wes) \<longrightarrow>
           (\<exists>v. (k, v) \<in> set bes \<and> result_ok (Some w') v)"
  shows "\<exists>vs. list_all2 (\<lambda>(k, w) (k', v). k' = k \<and> decode w = Inr v)
        (List.map_filter (new_field P wes) L) vs \<and>
      distinct (map fst (List.map_filter (new_field P wes) L)) \<and>
      set (map fst (List.map_filter (new_field P wes) L))
        = {k. \<exists>q w'. (q, w') \<in> set L \<and> child_key P q = Some k \<and> k \<notin> set (map fst wes)} \<and>
      (\<forall>k v'. (k, v') \<in> set vs \<longrightarrow> (\<exists>v. (k, v) \<in> set bes \<and> equal_deep v' v))"
  using assms
proof (induction L)
  case Nil
  show ?case by (intro exI [of _ "[]"]) (simp add: List.map_filter_simps)
next
  case (Cons e L)
  obtain q w' where e: "e = (q, w')" by (cases e)
  let ?N = "List.map_filter (new_field P wes) L"
  let ?K = "{k. \<exists>q w'. (q, w') \<in> set L \<and> child_key P q = Some k \<and> k \<notin> set (map fst wes)}"
  have d: "distinct (map fst L)" "q \<notin> fst ` set L" using Cons.prems(1) e by simp_all
  have p: "\<forall>q w' k. (q, w') \<in> set L \<longrightarrow> child_key P q = Some k \<longrightarrow> k \<notin> set (map fst wes) \<longrightarrow>
           (\<exists>v. (k, v) \<in> set bes \<and> result_ok (Some w') v)"
    using Cons.prems(2) by simp
  from Cons.IH [OF d(1) p] obtain vs where vs:
    "list_all2 (\<lambda>(k, w) (k', v). k' = k \<and> decode w = Inr v) ?N vs"
    "distinct (map fst ?N)" "set (map fst ?N) = ?K"
    "\<forall>k v'. (k, v') \<in> set vs \<longrightarrow> (\<exists>v. (k, v) \<in> set bes \<and> equal_deep v' v)"
    by blast
  show ?case
  proof (cases "new_field P wes e")
    case None
    then have 1: "List.map_filter (new_field P wes) (e # L) = ?N"
      by (simp add: List.map_filter_simps)
    have "\<not> (\<exists>k. child_key P q = Some k \<and> k \<notin> set (map fst wes))"
      using None e by (auto simp: new_field_def split: option.splits if_splits)
    then have 2: "{k. \<exists>q' w''. (q', w'') \<in> set (e # L) \<and> child_key P q' = Some k \<and> k \<notin> set (map fst wes)} = ?K"
      using e by auto
    show ?thesis unfolding 1 2 using vs by blast
  next
    case (Some kw)
    then obtain k where k: "child_key P q = Some k" "k \<notin> set (map fst wes)" and kw: "kw = (k, w')"
      using e by (auto simp: new_field_def split: option.splits if_splits)
    have 1: "List.map_filter (new_field P wes) (e # L) = (k, w') # ?N"
      using Some kw by (simp add: List.map_filter_simps)
    have "\<exists>v. (k, v) \<in> set bes \<and> result_ok (Some w') v"
      using Cons.prems(2) [rule_format, of q w' k] e k by simp
    then obtain v v' where v: "(k, v) \<in> set bes" "decode w' = Inr v'" "equal_deep v' v"
      by (auto simp: result_ok_iff)
    have fresh: "k \<notin> ?K"
    proof
      assume "k \<in> ?K"
      then obtain q' w'' where q': "(q', w'') \<in> set L" "child_key P q' = Some k" by blast
      then have "q' = q" using child_key_path k(1) by blast
      then have "q \<in> fst ` set L" using q'(1) by force
      then show False using d(2) by simp
    qed
    have 2: "{k'. \<exists>q' w''. (q', w'') \<in> set (e # L) \<and> child_key P q' = Some k' \<and> k' \<notin> set (map fst wes)}
        = insert k ?K"
      using e k by auto
    have a: "list_all2 (\<lambda>(k, w) (k', v). k' = k \<and> decode w = Inr v) ((k, w') # ?N) ((k, v') # vs)"
      using vs(1) v(2) by simp
    have b: "distinct (map fst ((k, w') # ?N))" using vs(2,3) fresh by simp
    have c: "set (map fst ((k, w') # ?N)) = insert k ?K" using vs(3) by simp
    have dd: "\<forall>k'' v''. (k'', v'') \<in> set ((k, v') # vs) \<longrightarrow> (\<exists>v. (k'', v) \<in> set bes \<and> equal_deep v'' v)"
      using vs(4) v(1,3) by auto
    show ?thesis unfolding 1 2 using a b c dd by blast
  qed
qed

lemma encode_VObj_entries:
  assumes "encode (VObj aes) = Inr w" "distinct (map fst aes)"
  shows "\<exists>wes. w = VObj wes \<and> map fst wes = map fst aes \<and>
           list_all2 (\<lambda>(k, w) (k', v). k' = k \<and> encode v = Inr w) wes aes"
proof -
  from assms(1) obtain entries where
    m: "mapM (\<lambda>(key, v). case encode v of Inl e \<Rightarrow> Inl e | Inr w \<Rightarrow> Inr (key, w)) aes = Inr entries"
    and w: "w = fromEntries entries"
    by (auto simp: encode_VObj split: sum.splits)
  from m have "list_all2 (\<lambda>x y. (case x of (key, v) \<Rightarrow> case encode v of Inl e \<Rightarrow> Inl e | Inr w \<Rightarrow> Inr (key, w)) = Inr y)
      aes entries" by (simp add: mapM_iff)
  then have l: "list_all2 (\<lambda>(k, w) (k', v). k' = k \<and> encode v = Inr w) entries aes"
    by (induction rule: list_all2_induct) (auto split: sum.splits)
  then have k: "map fst entries = map fst aes"
    by (induction rule: list_all2_induct) auto
  then have "fromEntries entries = VObj entries" using assms(2) by (simp add: fromEntries_distinct)
  then show ?thesis using w l k by blast
qed

lemma list_all2_keys:
  "list_all2 (\<lambda>(k, w) (k', v). k' = k \<and> Q w v) xs ys \<Longrightarrow> map fst ys = map fst xs"
  by (induction rule: list_all2_induct) auto

lemma list_all2_entry:
  "list_all2 (\<lambda>(k, w) (k', v). k' = k \<and> Q w v) xs ys \<Longrightarrow> (k, w) \<in> set xs \<Longrightarrow>
   \<exists>v. (k, v) \<in> set ys \<and> Q w v"
  by (induction rule: list_all2_induct) auto

lemma no_tag_key_keys: "no_tag_key es \<longleftrightarrow> (\<forall>k \<in> set (map fst es). k \<noteq> ''_JSSet'' \<and> k \<noteq> ''_JSMap'')"
  by (auto simp: no_tag_key_def list_all_iff)

lemma equal_deep_VObj:
  assumes "distinct (map fst vs)" "distinct (map fst bes)" "set (map fst vs) = set (map fst bes)"
    and "\<forall>k v'. (k, v') \<in> set vs \<longrightarrow> (\<exists>v. (k, v) \<in> set bes \<and> equal_deep v' v)"
  shows "equal_deep (VObj vs) (VObj bes)"
proof -
  have "length vs = length bes"
    using distinct_card [OF assms(1)] distinct_card [OF assms(2)] assms(3) by simp
  moreover have "list_all (\<lambda>(k, v). case map_of bes k of None \<Rightarrow> False | Some v' \<Rightarrow> equal_deep v v') vs"
    unfolding list_all_iff
  proof (clarify)
    fix k v' assume "(k, v') \<in> set vs"
    then obtain v where v: "(k, v) \<in> set bes" "equal_deep v' v" using assms(4) by blast
    then have "map_of bes k = Some v" using assms(2) by simp
    then show "case map_of bes k of None \<Rightarrow> False | Some v \<Rightarrow> equal_deep v' v" using v(2) by simp
  qed
  ultimately show ?thesis by (simp add: equal_deep.simps)
qed

lemma apply_val_absent:
  "apply_val U p None = Some w' \<Longrightarrow> map_of (d_set U) p = Some w' \<and> map_of (d_unset U) p = None"
  by (auto simp: apply_val.simps split: option.splits)

lemma apply_val_set:
  "map_of (d_set U) p = Some w' \<Longrightarrow> map_of (d_unset U) p = None \<Longrightarrow> apply_val U p old = Some w'"
  by (simp add: apply_val.simps)

lemma record_applied:
  assumes da: "document (VObj aes)" and db: "document (VObj bes)"
    and enc: "encode (VObj aes) = Inr w"
    and ag: "agrees P U d" and dU: "distinct (map fst (d_set U))"
    and i: "\<forall>p. (\<forall>k v. (k, v) \<in> set bes \<longrightarrow> \<not> path_under (path P k) p) \<longrightarrow>
              op_at d p = op_at (unset_removed P (map fst aes) (map fst bes)) p"
    and ii: "\<forall>k v old. (k, v) \<in> set bes \<longrightarrow> stored (getprop (VObj aes) k) old \<longrightarrow>
              result_ok (apply_val U (path P k) old) v"
  shows "result_ok (apply_val U P (Some w)) (VObj bes)"
proof -
  let ?diff = "unset_removed P (map fst aes) (map fst bes)"
  have dist_a: "distinct (map fst aes)" and dist_b: "distinct (map fst bes)"
    using da db by (simp_all add: document_def)
  have good_a: "\<And>k v. (k, v) \<in> set aes \<Longrightarrow> good_key k"
    and good_b: "\<And>k v. (k, v) \<in> set bes \<Longrightarrow> good_key k"
    using document_entry(2) da db by blast+
  from encode_VObj_entries [OF enc dist_a] obtain wes where wes: "w = VObj wes"
    "map fst wes = map fst aes"
    "list_all2 (\<lambda>(k, w) (k', v). k' = k \<and> encode v = Inr w) wes aes" by blast
  have outside: "op_at U p = op_at ?diff p"
    if "scope P p" "\<And>k v. (k, v) \<in> set bes \<Longrightarrow> \<not> path_under (path P k) p" for p
  proof -
    have "op_at U p = op_at d p" using ag that(1) by (simp add: agrees_def)
    moreover have "op_at d p = op_at ?diff p" using i that(2) by blast
    ultimately show ?thesis by simp
  qed
  have diff_fields: "d_push ?diff = []" "d_set ?diff = []"
    "fst ` set (d_unset ?diff) = path P ` (set (map fst aes) - set (map fst bes))"
    by (rule unset_removed_fields)+
  have other_key: "\<not> path_under (path P k') (path P k)"
    if "good_key k" "good_key k'" "k \<noteq> k'" for k k'
    using path_under_path_inj [of k k' P "path P k"] that by auto
  \<comment> \<open>nothing is said about the record itself\<close>
  have "op_at U P = op_at ?diff P"
    using good_b not_under_self by (intro outside) auto
  moreover have "P \<notin> path P ` (set (map fst aes) - set (map fst bes))"
  proof
    assume "P \<in> path P ` (set (map fst aes) - set (map fst bes))"
    then obtain k where "k \<in> set (map fst aes)" "P = path P k" by auto
    then have "good_key k" "path_under (path P k) P" using good_a by auto
    then show False using not_under_self by blast
  qed
  ultimately have top: "map_of (d_unset U) P = None" "map_of (d_set U) P = None"
    "map_of (d_push U) P = None"
    using diff_fields by (simp_all add: op_at_def map_of_eq_None_iff)
  have app: "apply_val U P (Some w) = Some (VObj (apply_fields U P wes @ new_fields U P wes))"
    using top wes(1) by (simp add: apply_val.simps)
  \<comment> \<open>the fields of the stored record\<close>
  have kept: "\<forall>k wk. (k, wk) \<in> set wes \<longrightarrow> good_key k \<and>
     ((k \<notin> fst ` set bes \<and> apply_val U (path P k) (Some wk) = None) \<or>
      (\<exists>v. (k, v) \<in> set bes \<and> result_ok (apply_val U (path P k) (Some wk)) v))"
  proof (intro allI impI)
    fix k wk assume kw: "(k, wk) \<in> set wes"
    from list_all2_entry [OF wes(3) kw] obtain ak where ak: "(k, ak) \<in> set aes" "encode ak = Inr wk"
      by blast
    have gk: "good_key k" using ak(1) by (rule good_a)
    have "getprop (VObj aes) k = ak" using ak(1) dist_a by (rule getprop_entry [rotated])
    moreover have "ak \<noteq> VUndefined" using document_entry(1) [OF da ak(1)] by (auto simp: document_def)
    ultimately have st: "stored (getprop (VObj aes) k) (Some wk)" using ak(2) by (simp add: stored_def)
    show "good_key k \<and>
     ((k \<notin> fst ` set bes \<and> apply_val U (path P k) (Some wk) = None) \<or>
      (\<exists>v. (k, v) \<in> set bes \<and> result_ok (apply_val U (path P k) (Some wk)) v))"
    proof (cases "k \<in> fst ` set bes")
      case True
      then obtain v where "(k, v) \<in> set bes" by force
      then show ?thesis using ii st gk by blast
    next
      case False
      have "op_at U (path P k) = op_at ?diff (path P k)"
      proof (rule outside)
        fix k' v assume "(k', v) \<in> set bes"
        then have "good_key k'" "k \<noteq> k'" using good_b False by force+
        then show "\<not> path_under (path P k') (path P k)" using other_key gk by blast
      qed simp
      moreover have "path P k \<in> fst ` set (d_unset ?diff)"
        using ak(1) False unfolding diff_fields(3) by force
      ultimately have "map_of (d_unset U) (path P k) \<noteq> None"
        by (simp add: op_at_def map_of_eq_None_iff)
      then have "apply_val U (path P k) (Some wk) = None"
        by (auto simp: apply_val.simps)
      then show ?thesis using False gk by simp
    qed
  qed
  from fields_applied [OF kept] obtain vsR where R:
    "list_all2 (\<lambda>(k, w) (k', v). k' = k \<and> decode w = Inr v) (apply_fields U P wes) vsR"
    "map fst (apply_fields U P wes) = filter (\<lambda>k. k \<in> fst ` set bes) (map fst wes)"
    "\<forall>k v'. (k, v') \<in> set vsR \<longrightarrow> (\<exists>v. (k, v) \<in> set bes \<and> equal_deep v' v)" by blast
  \<comment> \<open>the fields that are new\<close>
  have absent: "stored (getprop (VObj aes) k) None" if "k \<notin> set (map fst wes)" for k
  proof -
    have "map_of aes k = None" using that wes(2) by (simp add: map_of_eq_None_iff)
    then show ?thesis by (simp add: stored_def getprop_def)
  qed
  have new: "\<forall>q w' k. (q, w') \<in> set (d_set U) \<longrightarrow> child_key P q = Some k \<longrightarrow>
      k \<notin> set (map fst wes) \<longrightarrow> (\<exists>v. (k, v) \<in> set bes \<and> result_ok (Some w') v)"
  proof (intro allI impI)
    fix q w' k assume q: "(q, w') \<in> set (d_set U)" "child_key P q = Some k" "k \<notin> set (map fst wes)"
    have qk: "q = path P k" "good_key k" using child_key_path [OF q(2)] by simp_all
    have s: "map_of (d_set U) q = Some w'" using q(1) dU by simp
    have "k \<in> fst ` set bes"
    proof (rule ccontr)
      assume nb: "k \<notin> fst ` set bes"
      have "op_at U q = op_at ?diff q" unfolding qk(1)
      proof (rule outside)
        fix k' v assume "(k', v) \<in> set bes"
        then have "good_key k'" "k \<noteq> k'" using good_b nb by force+
        then show "\<not> path_under (path P k') (path P k)" using other_key qk(2) by blast
      qed simp
      then show False using s diff_fields(2) by (simp add: op_at_def)
    qed
    then obtain v where v: "(k, v) \<in> set bes" by force
    have r: "result_ok (apply_val U q None) v" using ii v absent [OF q(3)] qk(1) by blast
    then obtain w'' where "apply_val U q None = Some w''" by (auto simp: result_ok_iff)
    from apply_val_absent [OF this] s have "apply_val U q None = Some w'"
      by (simp add: apply_val_set)
    then show "\<exists>v. (k, v) \<in> set bes \<and> result_ok (Some w') v" using r v by auto
  qed
  from new_applied_list [OF dU new] obtain vsN where N:
    "list_all2 (\<lambda>(k, w) (k', v). k' = k \<and> decode w = Inr v) (new_fields U P wes) vsN"
    "distinct (map fst (new_fields U P wes))"
    "set (map fst (new_fields U P wes))
       = {k. \<exists>q w'. (q, w') \<in> set (d_set U) \<and> child_key P q = Some k \<and> k \<notin> set (map fst wes)}"
    "\<forall>k v'. (k, v') \<in> set vsN \<longrightarrow> (\<exists>v. (k, v) \<in> set bes \<and> equal_deep v' v)"
    unfolding new_fields_def by blast
  \<comment> \<open>together they are the fields of the second record\<close>
  let ?res = "apply_fields U P wes @ new_fields U P wes"
  have all2: "list_all2 (\<lambda>(k, w) (k', v). k' = k \<and> decode w = Inr v) ?res (vsR @ vsN)"
    using R(1) N(1) by (rule list_all2_appendI)
  have keys: "map fst (vsR @ vsN) = map fst ?res" using all2 by (rule list_all2_keys)
  have Nsub: "set (map fst (new_fields U P wes)) \<subseteq> fst ` set bes - set (map fst wes)"
  proof
    fix k assume "k \<in> set (map fst (new_fields U P wes))"
    then obtain q w' where "(q, w') \<in> set (d_set U)" "child_key P q = Some k" "k \<notin> set (map fst wes)"
      unfolding N(3) by blast
    then show "k \<in> fst ` set bes - set (map fst wes)" using new by force
  qed
  have Nsup: "fst ` set bes - set (map fst wes) \<subseteq> set (map fst (new_fields U P wes))"
  proof
    fix k assume k: "k \<in> fst ` set bes - set (map fst wes)"
    then obtain v where v: "(k, v) \<in> set bes" by force
    have "result_ok (apply_val U (path P k) None) v" using ii v absent k by blast
    then obtain w' where "apply_val U (path P k) None = Some w'" by (auto simp: result_ok_iff)
    then have "map_of (d_set U) (path P k) = Some w'" using apply_val_absent by blast
    then have "(path P k, w') \<in> set (d_set U)" by (rule map_of_SomeD)
    moreover have "child_key P (path P k) = Some k" using good_b [OF v] by (rule child_key_of_path)
    ultimately show "k \<in> set (map fst (new_fields U P wes))" unfolding N(3) using k by blast
  qed
  have res_keys: "set (map fst ?res) = fst ` set bes"
    using Nsub Nsup R(2) by auto
  have res_dist: "distinct (map fst ?res)"
    using R(2) N(2) Nsub dist_a wes(2) by auto
  have "no_tag_key bes" using db by (simp add: document_def)
  then have nt: "no_tag_key ?res" using res_keys unfolding no_tag_key_keys by simp
  have "decode (VObj ?res) = Inr (fromEntries (vsR @ vsN))"
    using decode_fields [OF nt all2, of "[]"] by (simp add: decode_VObj)
  moreover have "fromEntries (vsR @ vsN) = VObj (vsR @ vsN)"
    using res_dist keys by (simp only: fromEntries_distinct)
  moreover have "equal_deep (VObj (vsR @ vsN)) (VObj bes)"
  proof (rule equal_deep_VObj)
    show "distinct (map fst (vsR @ vsN))" using res_dist keys by simp
    show "distinct (map fst bes)" by (rule dist_b)
    show "set (map fst (vsR @ vsN)) = set (map fst bes)" using res_keys keys by simp
    show "\<forall>k v'. (k, v') \<in> set (vsR @ vsN) \<longrightarrow> (\<exists>v. (k, v) \<in> set bes \<and> equal_deep v' v)"
      using R(3) N(4) by auto
  qed
  ultimately show ?thesis using app by (simp add: result_ok_def)
qed

lemma outside_sameD:
  "outside_same prefix es d diff \<Longrightarrow> (\<And>k v. (k, v) \<in> set es \<Longrightarrow> \<not> path_under (path prefix k) p) \<Longrightarrow>
   op_at d p = op_at diff p"
  unfolding outside_same_def by blast

lemma loop_step:
  assumes c: "changes (path prefix k) (getprop a k) v = Inr c"
    and da: "document a" and ents: "entries_ok a ((k, v) # rest)"
    and dist: "distinct (map fst ((k, v) # rest))"
    and dd: "distinct_opers diff" and fr: "frame_ok prefix ((k, v) # rest) diff"
    and root: "root_ok prefix a ((k, v) # rest)"
    and head: "\<And>U old. agrees (path prefix k) U c \<Longrightarrow> distinct (map fst (d_set U)) \<Longrightarrow>
        stored (getprop a k) old \<Longrightarrow> result_ok (apply_val U (path prefix k) old) v"
    and out: "outside_same prefix rest d (fold (\<lambda>ov d. assign_oper d ov) (parse c) diff)"
    and flds: "fields_ok prefix a rest d"
  shows "outside_same prefix ((k, v) # rest) d diff \<and> fields_ok prefix a ((k, v) # rest) d"
proof -
  let ?diff = "fold (\<lambda>ov d. assign_oper d ov) (parse c) diff"
  have gk: "good_key k" and dv: "document v" using ents by (auto simp: entries_ok_def)
  have grest: "\<And>k' v'. (k', v') \<in> set rest \<Longrightarrow> good_key k' \<and> k' \<noteq> k"
    using ents dist by (force simp: entries_ok_def)
  have ne: "path prefix k \<noteq> []" using gk by (rule path_nonempty)
  have fa: "field_names_ok (getprop a k)" using da by (simp add: document_def field_names_ok_getprop)
  have "disjoint_opers c \<and> (path prefix k \<noteq> [] \<longrightarrow> (\<forall>p \<in> all_paths c. path_under (path prefix k) p))"
    using changes_paths(1) [of "path prefix k" "getprop a k" v] c fa dv by (simp add: document_def)
  then have cp: "\<And>p. p \<in> all_paths c \<Longrightarrow> path_under (path prefix k) p" using ne by blast
  have cd: "distinct_opers c" using changes_distinct(1) c by blast
  have not_rest: "\<not> path_under (path prefix k') p"
    if "path_under (path prefix k) p" "(k', v') \<in> set rest" for p k' v'
    using path_under_path_inj [of k k' prefix p] gk grest [OF that(2)] that(1) by auto
  have cid: "op_at c ''_id'' = (None, None, None)" if "path_under (path prefix k) ''_id''"
  proof -
    from id_under [OF that gk] have pk: "prefix = []" "k = ''_id''" by simp_all
    then have "getprop a k = v" using root by (simp add: root_ok_def)
    moreover have "wellformed v" "defined_fields v"
      using dv by (simp_all add: document_def supported_defined)
    ultimately have "c = new_UpdateFilter" using c changes_same [of v "path prefix k"] by simp
    then show ?thesis by (simp add: op_at_def new_UpdateFilter_def)
  qed
  have inside: "op_at d p = op_at c p" if p: "path_under (path prefix k) p" for p
  proof -
    have "op_at d p = op_at ?diff p" using out not_rest [OF p] by (rule outside_sameD)
    moreover have "op_at diff p = (None, None, None)" using fr p by (simp add: frame_ok_def)
    then have "op_at ?diff p = op_at c p" using cid p by (intro merged_inside [OF cd]) auto
    ultimately show ?thesis by simp
  qed
  have o: "outside_same prefix ((k, v) # rest) d diff"
    unfolding outside_same_def
  proof (intro allI impI)
    fix p assume p: "\<forall>k' v'. (k', v') \<in> set ((k, v) # rest) \<longrightarrow> \<not> path_under (path prefix k') p"
    then have "p \<notin> all_paths c" using cp by auto
    then have "op_at ?diff p = op_at diff p" by (rule merged_outside [OF cd])
    moreover have "op_at d p = op_at ?diff p" using out by (rule outside_sameD) (use p in auto)
    ultimately show "op_at d p = op_at diff p" by simp
  qed
  have f: "fields_ok prefix a ((k, v) # rest) d"
    unfolding fields_ok_def
  proof (intro allI impI)
    fix k' v' U old
    assume kv: "(k', v') \<in> set ((k, v) # rest)" and ag: "agrees (path prefix k') U d"
      and dU: "distinct (map fst (d_set U))" and st: "stored (getprop a k') old"
    show "result_ok (apply_val U (path prefix k') old) v'"
    proof (cases "(k', v') \<in> set rest")
      case True
      then show ?thesis using flds ag dU st by (simp add: fields_ok_def)
    next
      case False
      then have e: "k' = k" "v' = v" using kv by simp_all
      have "agrees (path prefix k) U c"
        unfolding agrees_def
      proof (intro allI impI)
        fix p assume "scope (path prefix k) p"
        then have p: "path_under (path prefix k) p" using ne by (simp add: scope_def)
        then have "op_at U p = op_at d p" using ag e by (simp add: agrees_def scope_def)
        then show "op_at U p = op_at c p" using inside [OF p] by simp
      qed
      then show ?thesis unfolding e using dU st e by (intro head) simp_all
    qed
  qed
  show ?thesis using o f by simp
qed

lemma loop_rest:
  assumes c: "changes (path prefix k) (getprop a k) v = Inr c"
    and da: "document a" and ents: "entries_ok a ((k, v) # rest)"
    and dist: "distinct (map fst ((k, v) # rest))"
    and dd: "distinct_opers diff" and fr: "frame_ok prefix ((k, v) # rest) diff"
    and root: "root_ok prefix a ((k, v) # rest)"
  shows "entries_ok a rest" "distinct (map fst rest)"
    "distinct_opers (fold (\<lambda>ov d. assign_oper d ov) (parse c) diff)"
    "frame_ok prefix rest (fold (\<lambda>ov d. assign_oper d ov) (parse c) diff)"
    "root_ok prefix a rest"
proof -
  let ?diff = "fold (\<lambda>ov d. assign_oper d ov) (parse c) diff"
  show "entries_ok a rest" using ents by (simp add: entries_ok_def)
  show "distinct (map fst rest)" using dist by simp
  show "distinct_opers ?diff" using dd by (rule distinct_opers_merge)
  show "root_ok prefix a rest" using root by (auto simp: root_ok_def)
  have gk: "good_key k" and dv: "document v" using ents by (auto simp: entries_ok_def)
  have grest: "\<And>k' v'. (k', v') \<in> set rest \<Longrightarrow> good_key k' \<and> k' \<noteq> k"
    using ents dist by (force simp: entries_ok_def)
  have ne: "path prefix k \<noteq> []" using gk by (rule path_nonempty)
  have fa: "field_names_ok (getprop a k)" using da by (simp add: document_def field_names_ok_getprop)
  have "disjoint_opers c \<and> (path prefix k \<noteq> [] \<longrightarrow> (\<forall>p \<in> all_paths c. path_under (path prefix k) p))"
    using changes_paths(1) [of "path prefix k" "getprop a k" v] c fa dv by (simp add: document_def)
  then have cp: "\<And>p. p \<in> all_paths c \<Longrightarrow> path_under (path prefix k) p" using ne by blast
  have cd: "distinct_opers c" using changes_distinct(1) c by blast
  show "frame_ok prefix rest ?diff"
    unfolding frame_ok_def
  proof (intro allI impI)
    fix k' v' p assume kv: "(k', v') \<in> set rest" and p: "path_under (path prefix k') p"
    have "p \<notin> all_paths c"
    proof
      assume "p \<in> all_paths c"
      then have "path_under (path prefix k) p" by (rule cp)
      then show False using path_under_path_inj [of k k' prefix p] gk grest [OF kv] p by auto
    qed
    then have "op_at ?diff p = op_at diff p" by (rule merged_outside [OF cd])
    then show "op_at ?diff p = (None, None, None)" using fr kv p by (simp add: frame_ok_def)
  qed
qed

lemma supported_typeof: "supported b \<Longrightarrow> b \<noteq> VUndefined \<and> typeof b \<notin> {TFunction, TSymbol}"
  by (cases b) auto

lemma record_sides:
  assumes "\<not> EJSONCompatible a" "typeof a = typeof b" "RecordLike a" "shape_ok a (VObj bes)"
  shows "\<exists>aes. a = VObj aes"
  using assms by (cases a) (auto simp: RecordLike_def)

lemma diff_apply_main:
  "\<forall>d U old. changes prefix a b = Inr d \<longrightarrow> (a = VUndefined \<or> document a) \<longrightarrow> document b \<longrightarrow>
      shape_ok a b \<longrightarrow> stored a old \<longrightarrow> agrees prefix U d \<longrightarrow> distinct (map fst (d_set U)) \<longrightarrow>
      (prefix \<noteq> [] \<or> getprop a ''_id'' = getprop b ''_id'') \<longrightarrow>
      result_ok (apply_val U prefix old) b"
  "\<forall>d. changes_loop prefix a es diff = Inr d \<longrightarrow> document a \<longrightarrow> entries_ok a es \<longrightarrow>
      distinct (map fst es) \<longrightarrow> distinct_opers diff \<longrightarrow> frame_ok prefix es diff \<longrightarrow>
      root_ok prefix a es \<longrightarrow>
      outside_same prefix es d diff \<and> fields_ok prefix a es d"
proof (induction prefix a b and prefix a es diff rule: changes_changes_loop.induct)
  case (1 prefix a b)
  show ?case
  proof (intro allI impI)
    fix d U old
    assume d: "changes prefix a b = Inr d" and da: "a = VUndefined \<or> document a"
      and db: "document b" and sh: "shape_ok a b" and st: "stored a old"
      and ag: "agrees prefix U d" and dU: "distinct (map fst (d_set U))"
      and root: "prefix \<noteq> [] \<or> getprop a ''_id'' = getprop b ''_id''"
    have b: "b \<noteq> VUndefined" and fs: "typeof b \<notin> {TFunction, TSymbol}"
      using db supported_typeof [of b] by (simp_all add: document_def)
    have bb: "wellformed b" "supported b" "tag_free b" using db by (simp_all add: document_def)
    have aa: "a = VUndefined \<or> (wellformed a \<and> supported a \<and> tag_free a)"
      using da by (auto simp: document_def)
    show "result_ok (apply_val U prefix old) b"
    proof (cases "EJSONCompatible a \<or> EJSONCompatible b \<or> isArray b \<or> isSet b \<or> isMap b
              \<or> typeof b = TBigInt")
      case True
      show ?thesis
      proof (cases "equal_deep a b")
        case eq: True
        then have dn: "d = new_UpdateFilter" using d b True by (simp add: changes.simps(1))
        have "a \<noteq> VUndefined" using eq b by (auto simp: equal_deep_undefined)
        then have a: "wellformed a" "supported a" "tag_free a" using aa by simp_all
        from roundtrips_all [OF a] obtain w where w: "encode a = Inr w" "decode w = Inr a"
          by (auto simp: roundtrips_def)
        then have old: "old = Some w" using st \<open>a \<noteq> VUndefined\<close> by (simp add: stored_def)
        have "\<forall>q. scope prefix q \<longrightarrow> op_at U q = (None, None, None)"
          using ag dn by (simp add: agrees_def op_at_def new_UpdateFilter_def)
        then have "apply_val U prefix old = old" using apply_unchanged(1) by blast
        then show ?thesis using old w eq by (simp add: result_ok_def)
      next
        case False
        then have "prefix \<noteq> []" "changes_container prefix a b = Inr d"
          using d b True by (simp_all add: changes.simps(1) split: if_splits)
        then show ?thesis using aa bb st ag by (intro container_result)
      qed
    next
      case leaf: False
      show ?thesis
      proof (cases "typeof a \<noteq> typeof b")
        case True
        then have "set_encoded prefix b = Inr d"
          using d b leaf fs by (simp add: changes.simps(1) split: if_splits)
        then show ?thesis using ag bb by (rule set_result)
      next
        case ty: False
        then have rec: "RecordLike a" "RecordLike b"
          and loop: "changes_loop prefix a (Object_entries b)
              (unset_removed prefix (Object_keys a) (Object_keys b)) = Inr d"
          using d b leaf fs by (simp_all add: changes.simps(1) split: if_splits)
        from record_is_VObj [of b] b leaf fs obtain bes where bes: "b = VObj bes" by auto
        from record_sides [of a b bes] leaf ty rec(1) sh bes obtain aes where aes: "a = VObj aes"
          by auto
        have da': "document (VObj aes)" using da aes by simp
        have db': "document (VObj bes)" using db bes by simp
        let ?diff = "unset_removed prefix (Object_keys a) (Object_keys b)"
        have dk: "?diff = unset_removed prefix (map fst aes) (map fst bes)"
          using aes bes by (simp add: Object_keys_def)
        note loop' = loop
        have dist_b: "distinct (map fst bes)" using db' by (simp add: document_def)
        have ents: "entries_ok a (Object_entries b)"
          unfolding entries_ok_def
        proof (intro allI impI)
          fix k v assume "(k, v) \<in> set (Object_entries b)"
          then have kv: "(k, v) \<in> set bes" using bes by simp
          then have "shape_ok (getprop a k) v" using sh bes by (auto simp: list_all_iff)
          then show "good_key k \<and> document v \<and> shape_ok (getprop a k) v"
            using document_entry [OF db' kv] by simp
        qed
        have fr: "frame_ok prefix (Object_entries b) ?diff"
          unfolding frame_ok_def
        proof (intro allI impI)
          fix k v p assume kv: "(k, v) \<in> set (Object_entries b)" and p: "path_under (path prefix k) p"
          have kb: "(k, v) \<in> set bes" using kv bes by simp
          have "p \<notin> path prefix ` (set (map fst aes) - set (map fst bes))"
          proof
            assume "p \<in> path prefix ` (set (map fst aes) - set (map fst bes))"
            then obtain k' where k': "k' \<in> set (map fst aes)" "k' \<notin> set (map fst bes)" "p = path prefix k'"
              by auto
            then obtain v' where "(k', v') \<in> set aes" by auto
            then have "good_key k'" using document_entry(2) [OF da'] by blast
            moreover have "good_key k" using document_entry(2) [OF db' kb] .
            ultimately have "k = k'" using path_under_path_inj [of k k' prefix p] p k'(3) by simp
            then show False using k'(2) kb by force
          qed
          then show "op_at ?diff p = (None, None, None)" unfolding dk by (simp add: unset_removed_op_at)
        qed
        have rt: "root_ok prefix a (Object_entries b)"
          unfolding root_ok_def
        proof (cases "prefix = []")
          case True
          then have "getprop a ''_id'' = getprop b ''_id''" using root by simp
          moreover have "\<And>v. (''_id'', v) \<in> set bes \<Longrightarrow> getprop b ''_id'' = v"
            using getprop_entry [OF dist_b] bes by simp
          ultimately show "prefix \<noteq> [] \<or> (\<forall>v. (''_id'', v) \<in> set (Object_entries b) \<longrightarrow> getprop a ''_id'' = v)"
            using bes by simp
        qed simp
        have nn: "\<not> typeof a \<noteq> typeof b" "\<not> \<not> RecordLike a" "\<not> \<not> RecordLike b"
          using ty rec by simp_all
        have dist_ents: "distinct (map fst (Object_entries b))" using dist_b bes by simp
        note IH = "1.IH" [OF b leaf fs nn, rule_format, OF loop' _ ents dist_ents distinct_unset_removed fr rt]
        have res: "outside_same prefix (Object_entries b) d ?diff \<and> fields_ok prefix a (Object_entries b) d"
          using IH da aes by simp
        have "a \<noteq> VUndefined" using aes by simp
        then obtain w where w: "encode (VObj aes) = Inr w" "old = Some w"
          using st aes by (auto simp: stored_def split: sum.splits)
        have i: "\<forall>p. (\<forall>k v. (k, v) \<in> set bes \<longrightarrow> \<not> path_under (path prefix k) p) \<longrightarrow>
              op_at d p = op_at (unset_removed prefix (map fst aes) (map fst bes)) p"
          using res bes unfolding dk by (simp add: outside_same_def)
        have ii: "\<forall>k v old. (k, v) \<in> set bes \<longrightarrow> stored (getprop (VObj aes) k) old \<longrightarrow>
              result_ok (apply_val U (path prefix k) old) v"
        proof (intro allI impI)
          fix k v old' assume kv: "(k, v) \<in> set bes" and s: "stored (getprop (VObj aes) k) old'"
          have "agrees (path prefix k) U d" using ag scope_child by (auto simp: agrees_def)
          moreover have "fields_ok prefix a bes d" using res bes by simp
          ultimately show "result_ok (apply_val U (path prefix k) old') v"
            using kv dU s aes unfolding fields_ok_def by blast
        qed
        show ?thesis using record_applied [OF da' db' w(1) ag dU i ii] w(2) bes by simp
      qed
    qed
  qed
next
  case (2 prefix a diff)
  show ?case by (simp add: outside_same_def fields_ok_def)
next
  case (3 prefix a k v rest diff)
  show ?case
  proof (intro allI impI)
    fix d
    assume d: "changes_loop prefix a ((k, v) # rest) diff = Inr d"
      and da: "document a" and ents: "entries_ok a ((k, v) # rest)"
      and dist: "distinct (map fst ((k, v) # rest))"
      and dd: "distinct_opers diff" and fr: "frame_ok prefix ((k, v) # rest) diff"
      and root: "root_ok prefix a ((k, v) # rest)"
    from d obtain c where c: "changes (path prefix k) (getprop a k) v = Inr c"
      and rest: "changes_loop prefix a rest (fold (\<lambda>ov d. assign_oper d ov) (parse c) diff) = Inr d"
      by (auto split: sum.splits)
    have kv: "good_key k" "document v" "shape_ok (getprop a k) v"
      using ents by (auto simp: entries_ok_def)
    have ne: "path prefix k \<noteq> []" using kv(1) by (rule path_nonempty)
    have ga: "getprop a k = VUndefined \<or> document (getprop a k)" using da by (rule document_getprop)
    have head: "result_ok (apply_val U (path prefix k) old) v"
      if "agrees (path prefix k) U c" "distinct (map fst (d_set U))" "stored (getprop a k) old" for U old
      using "3.IH"(1) [rule_format, OF c ga kv(2,3) that(3,1,2)] ne by simp
    note r = loop_rest [OF c da ents dist dd fr root]
    have "outside_same prefix rest d (fold (\<lambda>ov d. assign_oper d ov) (parse c) diff) \<and>
        fields_ok prefix a rest d"
      using "3.IH"(2) [OF c, rule_format, OF rest da r] .
    then show "outside_same prefix ((k, v) # rest) d diff \<and> fields_ok prefix a ((k, v) # rest) d"
      using loop_step [OF c da ents dist dd fr root head] by blast
  qed
qed


lemma operator_parse:
  "operator (parse d) ''$push'' = AList.delete ''_id'' (d_push d)"
  "operator (parse d) ''$set'' = AList.delete ''_id'' (d_set d)"
  "operator (parse d) ''$unset'' = AList.delete ''_id'' (d_unset d)"
  by (cases "d_push d"; cases "d_set d"; cases "d_unset d"; simp add: parse_def operator_def)+

lemma rendered_op_at:
  "op_at \<lparr>d_push = operator (parse d) ''$push'', d_set = operator (parse d) ''$set'',
          d_unset = operator (parse d) ''$unset''\<rparr> p
     = (if p = ''_id'' then (None, None, None) else op_at d p)"
  by (simp add: op_at_def operator_parse delete_conv')

lemma loop_id:
  "changes_loop prefix a es diff = Inr d \<Longrightarrow> op_at d ''_id'' = op_at diff ''_id''"
proof (induction es arbitrary: diff)
  case Nil
  then show ?case by simp
next
  case (Cons e es)
  obtain k v where e: "e = (k, v)" by (cases e)
  from Cons.prems e obtain c where c: "changes (path prefix k) (getprop a k) v = Inr c"
    and rest: "changes_loop prefix a es (fold (\<lambda>ov d. assign_oper d ov) (parse c) diff) = Inr d"
    by (auto split: sum.splits)
  have "distinct_opers c" using changes_distinct(1) c by blast
  from op_at_merged [OF this, of diff "''_id''"] Cons.IH [OF rest] show ?case by simp
qed

lemma root_no_id:
  assumes d: "changes [] a b = Inr d" and da: "document a" and db: "document b"
    and id: "getprop a ''_id'' = getprop b ''_id''"
  shows "op_at d ''_id'' = (None, None, None)"
proof -
  have b: "b \<noteq> VUndefined" and fs: "typeof b \<notin> {TFunction, TSymbol}"
    using db supported_typeof [of b] by (simp_all add: document_def)
  show ?thesis
  proof (cases "EJSONCompatible a \<or> EJSONCompatible b \<or> isArray b \<or> isSet b \<or> isMap b
              \<or> typeof b = TBigInt")
    case True
    then have "d = new_UpdateFilter" using d b by (simp add: changes.simps(1) split: if_splits)
    then show ?thesis by (simp add: op_at_def new_UpdateFilter_def)
  next
    case False
    then have loop: "changes_loop [] a (Object_entries b)
              (unset_removed [] (Object_keys a) (Object_keys b)) = Inr d"
      using d b fs by (simp add: changes.simps(1) split: if_splits)
    have "''_id'' \<notin> path [] ` (set (Object_keys a) - set (Object_keys b))"
    proof
      assume "''_id'' \<in> path [] ` (set (Object_keys a) - set (Object_keys b))"
      then have k: "''_id'' \<in> set (Object_keys a)" "''_id'' \<notin> set (Object_keys b)"
        by (auto simp: path_def)
      from k(2) have "map_of (Object_entries b) ''_id'' = None"
        by (simp add: Object_keys_def map_of_eq_None_iff)
      then have "getprop b ''_id'' = VUndefined" by (simp add: getprop_def)
      moreover have "map_of (Object_entries a) ''_id'' \<noteq> None"
        using k(1) by (simp add: Object_keys_def map_of_eq_None_iff)
      then obtain v where v: "map_of (Object_entries a) ''_id'' = Some v" by blast
      then have "getprop a ''_id'' = v" by (simp add: getprop_def)
      moreover have "document (getprop a ''_id'') \<or> getprop a ''_id'' = VUndefined"
        using document_getprop [OF da] by blast
      ultimately have "v = VUndefined" using id by simp
      moreover have "(''_id'', v) \<in> set (Object_entries a)" using v by (rule map_of_SomeD)
      then have "v \<noteq> VUndefined" using da
        by (cases a) (auto simp: document_def list_all_iff)
      ultimately show False by simp
    qed
    then have "op_at (unset_removed [] (Object_keys a) (Object_keys b)) ''_id'' = (None, None, None)"
      by (simp add: unset_removed_op_at)
    then show ?thesis using loop_id [OF loop] by simp
  qed
qed

lemma under_id: "path_under prefix ''_id'' \<Longrightarrow> prefix = ''_id''"
proof -
  assume "path_under prefix ''_id''"
  then obtain s where s: "''_id'' = prefix @ s" "s = [] \<or> hd s = CHR ''.''"
    unfolding path_under_iff by blast
  have "s = []"
  proof (rule ccontr)
    assume "s \<noteq> []"
    then have "CHR ''.'' \<in> set s" using s(2) by (cases s) auto
    then have "CHR ''.'' \<in> set (prefix @ s)" by simp
    then show False unfolding s(1) [symmetric] by simp
  qed
  then show ?thesis using s(1) by simp
qed

text \<open>
  C1, as stated, fails on documents of matching shape. A change of \<open>_id\<close> is never
  rendered, so the stored document keeps its \<open>_id\<close>; a field that is undefined in the
  second document is unset, and the document read back has no such field; a field name
  with a dot is the path of a nested field, which is the one that changes; a plain
  object with the key \<open>_JSSet\<close> is read back as a Set; a binary blob is stored and read
  back as the plain object of its bytes; and under the prefix \<open>_id\<close> the one operation
  is dropped from the rendered ChangeSet.
\<close>

theorem diff_apply_counterexample:
  "shape_ok (VObj [(''_id'', VNum 1), (''a'', VNum 1)]) (VObj [(''_id'', VNum 2), (''a'', VNum 1)]) \<and>
   diff_applied [] (VObj [(''_id'', VNum 1), (''a'', VNum 1)]) (VObj [(''_id'', VNum 2), (''a'', VNum 1)])
     = Some (VObj [(''_id'', VNum 1), (''a'', VNum 1)]) \<and>
   \<not> equal_deep (VObj [(''_id'', VNum 1), (''a'', VNum 1)]) (VObj [(''_id'', VNum 2), (''a'', VNum 1)]) \<and>
   shape_ok (VObj [(''a'', VNum 1)]) (VObj [(''a'', VUndefined)]) \<and>
   diff_applied [] (VObj [(''a'', VNum 1)]) (VObj [(''a'', VUndefined)]) = Some (VObj []) \<and>
   \<not> equal_deep (VObj []) (VObj [(''a'', VUndefined)]) \<and>
   shape_ok (VObj [(''a.b'', VNum 1), (''a'', VObj [(''b'', VNum 1)])])
     (VObj [(''a.b'', VNum 2), (''a'', VObj [(''b'', VNum 1)])]) \<and>
   diff_applied [] (VObj [(''a.b'', VNum 1), (''a'', VObj [(''b'', VNum 1)])])
       (VObj [(''a.b'', VNum 2), (''a'', VObj [(''b'', VNum 1)])])
     = Some (VObj [(''a.b'', VNum 1), (''a'', VObj [(''b'', VNum 2)])]) \<and>
   \<not> equal_deep (VObj [(''a.b'', VNum 1), (''a'', VObj [(''b'', VNum 2)])])
        (VObj [(''a.b'', VNum 2), (''a'', VObj [(''b'', VNum 1)])]) \<and>
   shape_ok (VObj [(''o'', VObj [(''_JSSet'', VArr [VNum 2])])]) (VObj [(''o'', VObj [(''_JSSet'', VArr [VNum 1])])]) \<and>
   diff_applied [] (VObj [(''o'', VObj [(''_JSSet'', VArr [VNum 2])])])
       (VObj [(''o'', VObj [(''_JSSet'', VArr [VNum 1])])])
     = Some (VObj [(''o'', VSet [VNum 1])]) \<and>
   \<not> equal_deep (VObj [(''o'', VSet [VNum 1])]) (VObj [(''o'', VObj [(''_JSSet'', VArr [VNum 1])])]) \<and>
   shape_ok (VObj [(''b'', VBin [9])]) (VObj [(''b'', VBin [1, 2, 3])]) \<and>
   diff_applied [] (VObj [(''b'', VBin [9])]) (VObj [(''b'', VBin [1, 2, 3])])
     = Some (VObj [(''b'', VObj [(''0'', VNum 1), (''1'', VNum 2), (''2'', VNum 3)])]) \<and>
   \<not> equal_deep (VObj [(''b'', VObj [(''0'', VNum 1), (''1'', VNum 2), (''2'', VNum 3)])])
        (VObj [(''b'', VBin [1, 2, 3])]) \<and>
   diff_applied ''_id'' (VNum 1) (VNum 2) = Some (VNum 1) \<and>
   \<not> equal_deep (VNum 1) (VNum 2)"
  by code_simp

text \<open>
  C1 (amended): let \<open>before\<close> and \<open>after\<close> be documents of matching shape: values of the
  language built from strings, numbers, booleans, null, ObjectIds, Dates, arrays, Sets,
  Maps and plain objects (no undefined field, no binary blob), whose field names are not
  empty, have no dot and are no reserved tag key. Let \<open>d\<close> be the ChangeSet that
  \<open>changes(prefix, before, after)\<close> returns, for a prefix other than \<open>_id\<close>, and at the
  empty prefix let the two documents have the same \<open>_id\<close> (or none). Then \<open>before\<close> has a
  stored form, applying the rendered \<open>d\<close> at the prefix to that stored form leaves a
  value, and decoding it gives a value deep-equal to \<open>after\<close>.
\<close>

theorem diff_apply_law:
  assumes "changes prefix before after = Inr d"
    and "document before" and "document after" and "shape_ok before after"
    and "prefix \<noteq> ''_id''"
    and "prefix = [] \<longrightarrow> getprop before ''_id'' = getprop after ''_id''"
  shows "\<exists>w w' after'. encode before = Inr w \<and> apply_update (parse d) prefix (Some w) = Some w' \<and>
           decode w' = Inr after' \<and> equal_deep after' after"
proof -
  let ?U = "\<lparr>d_push = operator (parse d) ''$push'', d_set = operator (parse d) ''$set'',
          d_unset = operator (parse d) ''$unset''\<rparr>"
  have a: "wellformed before" "supported before" "tag_free before"
    using assms(2) by (simp_all add: document_def)
  from roundtrips_all [OF a] obtain w where w: "encode before = Inr w" by (auto simp: roundtrips_def)
  have "before \<noteq> VUndefined" using a(2) by auto
  then have st: "stored before (Some w)" using w by (simp add: stored_def)
  have ag: "agrees prefix ?U d"
    unfolding agrees_def
  proof (intro allI impI)
    fix p assume p: "scope prefix p"
    have "op_at d p = (None, None, None)" if "p = ''_id''"
    proof (cases "prefix = []")
      case True
      then show ?thesis using root_no_id [of before after d] assms that by simp
    next
      case False
      then have "path_under prefix ''_id''" using p that by (simp add: scope_def)
      then show ?thesis using under_id assms(5) by blast
    qed
    then show "op_at ?U p = op_at d p" by (simp add: rendered_op_at)
  qed
  have "distinct_opers d" using changes_distinct(1) assms(1) by blast
  then have dU: "distinct (map fst (d_set ?U))"
    by (simp add: operator_parse distinct_opers_def distinct_delete)
  have root: "prefix \<noteq> [] \<or> getprop before ''_id'' = getprop after ''_id''" using assms(6) by blast
  have "result_ok (apply_val ?U prefix (Some w)) after"
    using diff_apply_main(1) [rule_format, OF assms(1) _ assms(3,4) st ag dU root] assms(2) by simp
  then show ?thesis using w by (auto simp: result_ok_iff apply_update_def)
qed


theorem diff_apply_law_witness:
  "changes [] profile_before profile_after = Inr profile_diff \<and>
   document profile_before \<and> document profile_after \<and> shape_ok profile_before profile_after \<and>
   [] \<noteq> ''_id'' \<and> getprop profile_before ''_id'' = getprop profile_after ''_id'' \<and>
   (\<exists>w w' after'. encode profile_before = Inr w \<and>
      apply_update (parse profile_diff) [] (Some w) = Some w' \<and>
      decode w' = Inr after' \<and> equal_deep after' profile_after) \<and>
   diff_applied [] profile_before profile_after = Some profile_after"
proof -
  have h: "changes [] profile_before profile_after = Inr profile_diff"
    "document profile_before" "document profile_after" "shape_ok profile_before profile_after"
    by code_simp+
  have i: "[] \<noteq> ''_id''" "[] = [] \<longrightarrow> getprop profile_before ''_id'' = getprop profile_after ''_id''"
    by code_simp+
  have e: "diff_applied [] profile_before profile_after = Some profile_after" by code_simp
  show ?thesis using h i e diff_apply_law [OF h i] by simp
qed

section \<open>Properties of the cursor\<close>

lemma iterate_skip_pending: "c_skip c > skipped c \<Longrightarrow> iterate fuel c w acc = None"
  by (induction fuel) auto

text \<open>
  C3: the code at the claim's input. Ten documents, six of which match the predicate;
  \<open>find(pred).skip(2).limit(3)\<close> has \<open>_skip = 0\<close> (the skip is lost with the options the
  constructor strips) and yields the first three matching documents, not the third to
  the fifth. With skip and limit given to \<open>find\<close> directly the cursor has \<open>_skip = 2\<close>, and
  \<open>next\<close> still yields the first three matching documents, since \<open>skipped++; continue\<close>
  keeps the document; the async iterator (hence \<open>toArray\<close>) then never returns.
\<close>

theorem cursor_skip_limit_yields_first_three:
  "drain 4 (and_then (and_then (find_cursor coll10 (Some (Predicate pred6)) None []) (skip 2)) (limit 3))
     = [Value (doc 2), Value (doc 3), Value (doc 5), Done] \<and>
   drain_toArray 10 (and_then (and_then (find_cursor coll10 (Some (Predicate pred6)) None []) (skip 2)) (limit 3))
     = Some (Inr (Some (VArr [doc 2, doc 3, doc 5]))) \<and>
   drain 4 (find_cursor coll10 (Some (Predicate pred6)) (Some (no_options\<lparr>o_skip := Some 2, o_limit := Some 3\<rparr>)) [])
     = [Value (doc 2), Value (doc 3), Value (doc 5), Done] \<and>
   (\<forall>fuel. drain_toArray fuel
       (find_cursor coll10 (Some (Predicate pred6)) (Some (no_options\<lparr>o_skip := Some 2, o_limit := Some 3\<rparr>)) [])
     = None)"
proof (intro conjI allI)
  show "drain 4 (and_then (and_then (find_cursor coll10 (Some (Predicate pred6)) None []) (skip 2)) (limit 3))
     = [Value (doc 2), Value (doc 3), Value (doc 5), Done]"
    by code_simp
  show "drain_toArray 10 (and_then (and_then (find_cursor coll10 (Some (Predicate pred6)) None []) (skip 2)) (limit 3))
     = Some (Inr (Some (VArr [doc 2, doc 3, doc 5])))"
    by code_simp
  show "drain 4 (find_cursor coll10 (Some (Predicate pred6)) (Some (no_options\<lparr>o_skip := Some 2, o_limit := Some 3\<rparr>)) [])
     = [Value (doc 2), Value (doc 3), Value (doc 5), Done]"
    by code_simp
next
  fix fuel
  obtain c w where cw: "find_cursor coll10 (Some (Predicate pred6)) (Some (no_options\<lparr>o_skip := Some 2, o_limit := Some 3\<rparr>)) []
      = Inr (c, w)" and "c_skip c = 2" "skipped c = 0"
    by (simp add: find_cursor_def new_FindCursor_def no_options_def)
  then have "iterate fuel c w [] = None" by (simp add: iterate_skip_pending)
  then show "drain_toArray fuel
       (find_cursor coll10 (Some (Predicate pred6)) (Some (no_options\<lparr>o_skip := Some 2, o_limit := Some 3\<rparr>)) [])
     = None"
    using cw by (simp add: drain_toArray_def toArray_def)
qed

lemma new_FindCursor_fields:
  assumes "new_FindCursor coll srch opts tf w = Inr (c, w')"
  shows "collection c = coll" "search c = srch" "transform c = tf" "skipped c = 0" "yielded c = 0"
    "cursor c = length w" "options c = strip_options opts"
    "w' = w @ [\<lparr>remaining = driver_find coll (query c) (strip_options opts), closed = False\<rparr>]"
    "c_limit c = (case opts of None \<Rightarrow> None | Some o1 \<Rightarrow> o_limit o1)"
    "c_skip c = (case opts of None \<Rightarrow> 0 | Some o1 \<Rightarrow> (case o_skip o1 of None \<Rightarrow> 0 | Some n \<Rightarrow> n))"
  using assms by (auto simp: new_FindCursor_def split: sum.splits)

lemma strip_options_idem [simp]: "strip_options (strip_options opts) = strip_options opts"
  by (cases opts) (simp_all add: strip_options_def)

lemma strip_options_fields:
  "(case strip_options opts of None \<Rightarrow> None | Some o1 \<Rightarrow> o_limit o1) = None"
  "(case strip_options opts of None \<Rightarrow> 0 | Some o1 \<Rightarrow> (case o_skip o1 of None \<Rightarrow> 0 | Some n \<Rightarrow> n)) = 0"
  "map_option o_sort (strip_options opts) = map_option o_sort opts"
  "map_option o_hint (strip_options opts) = map_option o_hint opts"
  by (cases opts; simp add: strip_options_def)+

text \<open>
  What \<open>clone\<close> keeps and what it loses, for every cursor that a constructor built: the
  search, the transform, the sort and the hint are kept, the counters are zero and the
  driver cursor is a new one; the limit and the skip are those of no options at all.
\<close>

lemma clone_of_constructed:
  assumes "new_FindCursor coll srch opts tf w = Inr (c, w1)" and "clone c w1 = Inr (c', w2)"
  shows "search c' = search c \<and> transform c' = transform c \<and> collection c' = collection c \<and>
         map_option o_sort (options c') = map_option o_sort opts \<and>
         map_option o_hint (options c') = map_option o_hint opts \<and>
         skipped c' = 0 \<and> yielded c' = 0 \<and> cursor c' \<noteq> cursor c \<and>
         c_limit c' = None \<and> c_skip c' = 0"
proof -
  note c = new_FindCursor_fields [OF assms(1)]
  have "new_FindCursor coll srch (strip_options opts) tf w1 = Inr (c', w2)"
    using assms(2) c by (simp add: clone_def)
  note c' = new_FindCursor_fields [OF this]
  show ?thesis using c c' by (simp add: strip_options_fields)
qed

text \<open>
  C5: the code at an input of the claim. A cursor built with limit 3, skip 2, a sort and
  a hint is cloned: the clone keeps the predicate, the sort and the hint and has its
  counters at zero and a driver cursor of its own, but its limit is Infinity and its
  skip 0.
\<close>

theorem clone_loses_limit_and_skip:
  "(case find_cursor coll10 (Some (Predicate pred6))
           (Some \<lparr>o_limit = Some 3, o_skip = Some 2, o_populate = None,
                  o_sort = Some (VObj [(''n'', VNum 1)]), o_hint = Some (VStr ''n_1'')\<rparr>) [] of
      Inl e \<Rightarrow> False
    | Inr (c, w) \<Rightarrow>
        (case clone c w of
           Inl e \<Rightarrow> False
         | Inr (c', w') \<Rightarrow>
             c_limit c = Some 3 \<and> c_skip c = 2 \<and> c_limit c' = None \<and> c_skip c' = 0 \<and>
             map_option o_sort (options c') = Some (Some (VObj [(''n'', VNum 1)])) \<and>
             map_option o_hint (options c') = Some (Some (VStr ''n_1'')) \<and>
             skipped c' = 0 \<and> yielded c' = 0 \<and> cursor c' \<noteq> cursor c \<and>
             nexts 7 c' w' = [Value (doc 2), Value (doc 3), Value (doc 5), Value (doc 6),
                              Value (doc 8), Value (doc 9), Done]))"
  by code_simp

subsection \<open>What a step reads and writes\<close>

lemma driver_next_same_cell:
  assumes "same_cell h w1 w2"
  shows "\<exists>nxt w1' w2'. driver_next h w1 = (nxt, w1') \<and> driver_next h w2 = (nxt, w2') \<and>
           same_cell h w1' w2'"
  using assms by (auto simp: same_cell_def driver_next_def driver_remaining_def split: list.splits)

lemma driver_close_same_cell:
  "same_cell h w1 w2 \<Longrightarrow> same_cell h (driver_close h w1) (driver_close h w2)"
  by (auto simp: same_cell_def driver_close_def)

lemma agree_skipped:
  "agree (c\<lparr>skipped := n\<rparr>) w1 w2 d \<Longrightarrow>
   \<exists>r c' w1' w2'. next_loop (c\<lparr>skipped := n\<rparr>) w1 d = (r, c', w1') \<and>
      next_loop (c\<lparr>skipped := n\<rparr>) w2 d = (r, c', w2') \<and>
      cursor c' = cursor c \<and> same_cell (cursor c) w1' w2'"
  by (simp add: agree_def)

lemma next_loop_agree: "same_cell (cursor c) w1 w2 \<Longrightarrow> agree c w1 w2 d"
proof (induction c w1 d arbitrary: w2 rule: next_loop.induct)
  case (1 c w)
  then show ?case by (simp add: agree_def driver_close_same_cell)
next
  case (2 c w doc)
  note sc = "2.prems"
  show ?case
  proof (cases "limit_reached c")
    case True
    then show ?thesis using sc by (simp add: agree_def next_loop.simps(2) driver_close_same_cell)
  next
    case lim: False
    show ?thesis
    proof (cases "decode doc")
      case (Inl e)
      then show ?thesis using sc lim by (simp add: agree_def next_loop.simps(2))
    next
      case (Inr data)
      define v where "v = model (collection c) data"
      define v' where "v' = populated_transformed c v"
      have sc': "same_cell (cursor (c\<lparr>skipped := skipped c + 1\<rparr>)) w w2" using sc by simp
      show ?thesis
      proof (cases "search c")
        case None
        have "agree (c\<lparr>skipped := skipped c + 1\<rparr>) w w2 (Some doc)"
          if "v' \<noteq> VNull" "skipped c < c_skip c"
          using "2.IH"(1) [OF lim Inr v_def None v'_def that sc'] .
        from agree_skipped [OF this] show ?thesis
          using lim Inr None sc v_def v'_def
          by (auto simp: agree_def next_loop.simps(2) [of c] Let_def)
      next
        case (Some s)
        show ?thesis
        proof (cases s)
          case (Filter f)
          have "agree (c\<lparr>skipped := skipped c + 1\<rparr>) w w2 (Some doc)"
            if "v' \<noteq> VNull" "skipped c < c_skip c"
            using "2.IH"(2) [OF lim Inr v_def Some Filter v'_def that sc'] .
          from agree_skipped [OF this] show ?thesis
            using lim Inr Some Filter sc v_def v'_def
            by (auto simp: agree_def next_loop.simps(2) [of c] Let_def)
        next
          case (Predicate p)
          show ?thesis
          proof (cases "p v")
            case True
            have "agree (c\<lparr>skipped := skipped c + 1\<rparr>) w w2 (Some doc)"
              if "v' \<noteq> VNull" "skipped c < c_skip c"
              using "2.IH"(3) [OF lim Inr v_def Some Predicate True v'_def that sc'] .
            from agree_skipped [OF this] show ?thesis
              using lim Inr Some Predicate True sc v_def v'_def
              by (auto simp: agree_def next_loop.simps(2) [of c] Let_def)
          next
            case False
            from driver_next_same_cell [OF sc] obtain nxt w1' w2' where
              n: "driver_next (cursor c) w = (nxt, w1')" "driver_next (cursor c) w2 = (nxt, w2')"
                "same_cell (cursor c) w1' w2'" by blast
            from "2.IH"(4) [OF lim Inr v_def Some Predicate False n(1) [symmetric] n(3)]
            show ?thesis using lim Inr Some Predicate False n v_def
              by (simp add: agree_def next_loop.simps(2) [of c])
          qed
        qed
      qed
    qed
  qed
qed

lemma next_agree:
  assumes "same_cell (cursor c) w1 w2"
  shows "\<exists>r c' w1' w2'. next c w1 = (r, c', w1') \<and> next c w2 = (r, c', w2') \<and>
           cursor c' = cursor c \<and> same_cell (cursor c) w1' w2'"
proof -
  from driver_next_same_cell [OF assms] obtain nxt v1 v2 where
    n: "driver_next (cursor c) w1 = (nxt, v1)" "driver_next (cursor c) w2 = (nxt, v2)"
      "same_cell (cursor c) v1 v2" by blast
  from next_loop_agree [OF n(3), of nxt] show ?thesis using n by (simp add: next_def agree_def)
qed

lemma nexts_agree: "same_cell (cursor c) w1 w2 \<Longrightarrow> nexts n c w1 = nexts n c w2"
proof (induction n arbitrary: c w1 w2)
  case 0
  then show ?case by simp
next
  case (Suc n)
  from next_agree [OF Suc.prems] obtain r c' w1' w2' where
    s: "next c w1 = (r, c', w1')" "next c w2 = (r, c', w2')" "cursor c' = cursor c"
      "same_cell (cursor c) w1' w2'" by blast
  then have "nexts n c' w1' = nexts n c' w2'" using Suc.IH [of c' w1' w2'] by simp
  then show ?case using s by simp
qed

lemma only_cell_refl [simp]: "only_cell h w w"
  by (simp add: only_cell_def)

lemma only_cell_trans: "only_cell h w w' \<Longrightarrow> only_cell h w' w'' \<Longrightarrow> only_cell h w w''"
  by (simp add: only_cell_def)

lemma driver_next_only_cell: "only_cell h w (snd (driver_next h w))"
  by (auto simp: only_cell_def driver_next_def split: list.splits)

lemma driver_close_only_cell: "only_cell h w (driver_close h w)"
  by (auto simp: only_cell_def driver_close_def)

lemma next_loop_only_cell: "only_cell (cursor c) w (snd (snd (next_loop c w d)))"
proof (induction c w d rule: next_loop.induct)
  case (1 c w)
  then show ?case by (simp add: driver_close_only_cell)
next
  case (2 c w doc)
  show ?case
  proof (cases "limit_reached c")
    case True
    then show ?thesis by (simp add: next_loop.simps(2) driver_close_only_cell)
  next
    case lim: False
    show ?thesis
    proof (cases "decode doc")
      case (Inl e)
      then show ?thesis using lim by (simp add: next_loop.simps(2))
    next
      case (Inr data)
      define v where "v = model (collection c) data"
      define v' where "v' = populated_transformed c v"
      show ?thesis
      proof (cases "search c")
        case None
        have "only_cell (cursor c) w (snd (snd (next_loop (c\<lparr>skipped := skipped c + 1\<rparr>) w (Some doc))))"
          if "v' \<noteq> VNull" "skipped c < c_skip c"
          using "2.IH"(1) [OF lim Inr v_def None v'_def that] by simp
        then show ?thesis using lim Inr None v_def v'_def
          by (auto simp: next_loop.simps(2) [of c] Let_def)
      next
        case (Some s)
        show ?thesis
        proof (cases s)
          case (Filter f)
          have "only_cell (cursor c) w (snd (snd (next_loop (c\<lparr>skipped := skipped c + 1\<rparr>) w (Some doc))))"
            if "v' \<noteq> VNull" "skipped c < c_skip c"
            using "2.IH"(2) [OF lim Inr v_def Some Filter v'_def that] by simp
          then show ?thesis using lim Inr Some Filter v_def v'_def
            by (auto simp: next_loop.simps(2) [of c] Let_def)
        next
          case (Predicate p)
          show ?thesis
          proof (cases "p v")
            case True
            have "only_cell (cursor c) w (snd (snd (next_loop (c\<lparr>skipped := skipped c + 1\<rparr>) w (Some doc))))"
              if "v' \<noteq> VNull" "skipped c < c_skip c"
              using "2.IH"(3) [OF lim Inr v_def Some Predicate True v'_def that] by simp
            then show ?thesis using lim Inr Some Predicate True v_def v'_def
              by (auto simp: next_loop.simps(2) [of c] Let_def)
          next
            case False
            obtain nxt w1 where n: "driver_next (cursor c) w = (nxt, w1)"
              by (cases "driver_next (cursor c) w")
            have "only_cell (cursor c) w w1" using driver_next_only_cell [of "cursor c" w] n by simp
            moreover have "only_cell (cursor c) w1 (snd (snd (next_loop c w1 nxt)))"
              using "2.IH"(4) [OF lim Inr v_def Some Predicate False n [symmetric]] .
            ultimately show ?thesis using lim Inr Some Predicate False n v_def
              by (simp add: next_loop.simps(2) [of c] only_cell_trans)
          qed
        qed
      qed
    qed
  qed
qed

lemma next_only_cell: "only_cell (cursor c) w (snd (snd (next c w)))"
proof -
  obtain nxt w1 where n: "driver_next (cursor c) w = (nxt, w1)" by (cases "driver_next (cursor c) w")
  have "only_cell (cursor c) w w1" using driver_next_only_cell [of "cursor c" w] n by simp
  then show ?thesis using n next_loop_only_cell [of c w1 nxt] by (simp add: next_def only_cell_trans)
qed

lemma hasNext_same_cell:
  assumes "cursor c < length w"
  shows "same_cell (cursor c) (snd (hasNext c w)) w"
proof (cases "clone c w")
  case (Inl e)
  then show ?thesis using assms by (simp add: hasNext_def same_cell_def)
next
  case (Inr cw1)
  obtain c1 w1 where cw1: "cw1 = (c1, w1)" by (cases cw1)
  note f1 = new_FindCursor_fields [OF Inr [unfolded clone_def cw1]]
  have w1: "same_cell (cursor c) w1 w" using assms f1(8) by (simp add: same_cell_def nth_append)
  show ?thesis
  proof (cases "skip (yielded c) c1 w1")
    case (Inl e)
    then show ?thesis using Inr cw1 w1 by (simp add: hasNext_def)
  next
    case (Inr pw2)
    obtain probe w2 where pw2: "pw2 = (probe, w2)" by (cases pw2)
    note f2 = new_FindCursor_fields [OF Inr [unfolded skip_def pw2]]
    have h: "cursor probe = Suc (length w)" using f1(8) f2(6) by simp
    have w2: "same_cell (cursor c) w2 w" using assms f1(8) f2(8) by (simp add: same_cell_def nth_append)
    obtain r c3 w3 where n: "next probe w2 = (r, c3, w3)" by (cases "next probe w2") auto
    have "only_cell (cursor probe) w2 w3" using next_only_cell [of probe w2] n by simp
    then have "same_cell (cursor c) w3 w" using w2 h assms by (auto simp: only_cell_def same_cell_def)
    moreover have "snd (hasNext c w) = w3"
      using \<open>clone c w = Inr cw1\<close> cw1 Inr pw2 n by (cases r) (simp_all add: hasNext_def)
    ultimately show ?thesis by simp
  qed
qed

lemma hasNext_probe:
  assumes "clone c w = Inr (c1, w1)" and "skip (yielded c) c1 w1 = Inr (probe, w2)"
  shows "cursor c1 = length w" "cursor probe = Suc (length w)" "c_skip probe = yielded c"
    "skipped probe = 0" "yielded probe = 0" "search probe = search c" "transform probe = transform c"
    "hasNext c w = (case next probe w2 of
                      (Thrown e, c3, w3) \<Rightarrow> (Inl e, w3)
                    | (r, c3, w3) \<Rightarrow> (Inr (r \<noteq> Done), w3))"
proof -
  note f1 = new_FindCursor_fields [OF assms(1) [unfolded clone_def]]
  note f2 = new_FindCursor_fields [OF assms(2) [unfolded skip_def]]
  show "cursor c1 = length w" "cursor probe = Suc (length w)" "c_skip probe = yielded c"
    "skipped probe = 0" "yielded probe = 0" "search probe = search c" "transform probe = transform c"
    using f1 f2 by simp_all
  show "hasNext c w = (case next probe w2 of
                      (Thrown e, c3, w3) \<Rightarrow> (Inl e, w3)
                    | (r, c3, w3) \<Rightarrow> (Inr (r \<noteq> Done), w3))"
    using assms by (simp add: hasNext_def)
qed

text \<open>
  The frame of \<open>hasNext\<close>. For every cursor whose driver cursor exists in the world,
  \<open>hasNext\<close> leaves the position alone: the results of any number of later calls of
  \<open>next\<close> are the same in the world after \<open>hasNext\<close> as in the world before it (the cursor
  object itself is not changed by \<open>hasNext\<close>). And \<open>hasNext\<close> probes by \<open>next\<close> on a cursor
  built by \<open>clone()\<close> and \<open>skip(this.yielded)\<close>: a cursor with driver cursors of its own,
  its counters at zero and its skip set to the yielded count of the original.
\<close>

theorem hasNext_preserves_position:
  assumes "cursor c < length w" and "hasNext c w = (r, w')"
  shows "nexts n c w' = nexts n c w \<and>
         (\<forall>c1 w1 probe w2.
            clone c w = Inr (c1, w1) \<and> skip (yielded c) c1 w1 = Inr (probe, w2) \<longrightarrow>
              cursor c1 \<noteq> cursor c \<and> cursor probe \<noteq> cursor c \<and>
              c_skip probe = yielded c \<and> skipped probe = 0 \<and> yielded probe = 0 \<and>
              search probe = search c \<and> transform probe = transform c \<and>
              (r, w') = (case next probe w2 of
                           (Thrown e, c3, w3) \<Rightarrow> (Inl e, w3)
                         | (x, c3, w3) \<Rightarrow> (Inr (x \<noteq> Done), w3)))"
proof (intro conjI allI impI)
  have "same_cell (cursor c) w' w" using hasNext_same_cell [OF assms(1)] assms(2) by simp
  then show "nexts n c w' = nexts n c w" by (rule nexts_agree)
next
  fix c1 w1 probe w2
  assume "clone c w = Inr (c1, w1) \<and> skip (yielded c) c1 w1 = Inr (probe, w2)"
  then have a: "clone c w = Inr (c1, w1)" "skip (yielded c) c1 w1 = Inr (probe, w2)" by simp_all
  note p = hasNext_probe [OF a]
  show "cursor c1 \<noteq> cursor c" "cursor probe \<noteq> cursor c" using p(1,2) assms(1) by simp_all
  show "c_skip probe = yielded c" "skipped probe = 0" "yielded probe = 0"
    "search probe = search c" "transform probe = transform c" using p by simp_all
  show "(r, w') = (case next probe w2 of
                           (Thrown e, c3, w3) \<Rightarrow> (Inl e, w3)
                         | (x, c3, w3) \<Rightarrow> (Inr (x \<noteq> Done), w3))"
    using p(8) assms(2) by simp
qed

theorem hasNext_preserves_position_witness:
  "cursor (fst cursor10) < length (snd cursor10) \<and>
   yielded (fst cursor10) = 1 \<and>
   fst (hasNext (fst cursor10) (snd cursor10)) = Inr True \<and>
   nexts 6 (fst cursor10) (snd (hasNext (fst cursor10) (snd cursor10)))
     = nexts 6 (fst cursor10) (snd cursor10) \<and>
   nexts 6 (fst cursor10) (snd cursor10)
     = [Value (doc 3), Value (doc 5), Value (doc 6), Value (doc 8), Value (doc 9), Done]"
proof -
  have h: "cursor (fst cursor10) < length (snd cursor10)" by code_simp
  have e: "hasNext (fst cursor10) (snd cursor10)
      = (fst (hasNext (fst cursor10) (snd cursor10)), snd (hasNext (fst cursor10) (snd cursor10)))"
    by simp
  have v: "yielded (fst cursor10) = 1" "fst (hasNext (fst cursor10) (snd cursor10)) = Inr True"
    "nexts 6 (fst cursor10) (snd cursor10)
     = [Value (doc 3), Value (doc 5), Value (doc 6), Value (doc 8), Value (doc 9), Done]"
    by code_simp+
  show ?thesis using h v hasNext_preserves_position [OF h e, of 6] by simp
qed

text \<open>
  C8: the code at an input of the claim. The cursor over the ten documents has yielded
  one document, \<open>{ n: 2 }\<close>; the probe that \<open>hasNext\<close> builds with \<open>skip(1)\<close> is not advanced
  past it: its \<open>next\<close> yields \<open>{ n: 2 }\<close> again. After all six matching documents the
  cursor is exhausted, \<open>next\<close> is done, and \<open>hasNext\<close> still answers true. (The position
  of the cursor is preserved all the same.)
\<close>

theorem hasNext_probe_not_advanced:
  "yielded (fst cursor10) = 1 \<and>
   (case clone (fst cursor10) (snd cursor10) of
      Inl e \<Rightarrow> False
    | Inr (c1, w1) \<Rightarrow>
        (case skip (yielded (fst cursor10)) c1 w1 of
           Inl e \<Rightarrow> False
         | Inr (probe, w2) \<Rightarrow> c_skip probe = 1 \<and> fst (next probe w2) = Value (doc 2))) \<and>
   fst (next (fst (after_nexts 5 cursor10)) (snd (after_nexts 5 cursor10))) = Done \<and>
   fst (hasNext (fst (after_nexts 5 cursor10)) (snd (after_nexts 5 cursor10))) = Inr True \<and>
   nexts 2 (fst (after_nexts 5 cursor10))
       (snd (hasNext (fst (after_nexts 5 cursor10)) (snd (after_nexts 5 cursor10))))
     = [Done, Done]"
  by code_simp

section \<open>Properties of \<open>updateOne\<close>\<close>






end
